theory Spec2Isabelle
  imports Main "HOL-Library.Char_ord" "HOL-Library.List_Lexorder"
begin

text \<open>
  \<open>sort_css\<close> reorders the rule blocks of a stylesheet: by selector, tags before ids and
  classes, or by the order in which tags, ids and classes first appear in an HTML
  document. The theory follows \<open>sort_css.py\<close> function by function. The parsers
  \<open>cssutils\<close> and \<open>bs4\<close>, the files and the command line are outside: the
  functions here start from the parsed rules and the parsed tree.
\<close>

section \<open>Python strings\<close>

text \<open>
  A Python \<open>str\<close> is modelled as a \<open>string\<close> whose characters are the code points
  below 256. Python compares two \<open>str\<close> values code point by code point, which is the
  lexicographic order on \<open>char list\<close> over the numeric order on \<open>char\<close>.
\<close>

definition is_space :: "char \<Rightarrow> bool" where
  \<comment> \<open>\<open>str.isspace\<close> on one character: what \<open>str.strip()\<close> removes.\<close>
  "is_space c =
     (c \<in> set [CHR 0x09, CHR 0x0A, CHR 0x0B, CHR 0x0C, CHR 0x0D, CHR 0x1C, CHR 0x1D,
               CHR 0x1E, CHR 0x1F, CHR 0x20, CHR 0x85, CHR 0xA0])"

definition strip :: "string \<Rightarrow> string" where
  \<comment> \<open>\<open>s.strip()\<close>\<close>
  "strip s = rev (dropWhile is_space (rev (dropWhile is_space s)))"

fun split_on :: "(char \<Rightarrow> bool) \<Rightarrow> string \<Rightarrow> string list" where
  \<comment> \<open>\<open>s.split(sep)\<close> and \<open>re.split\<close> on a pattern matching single characters:
      every separator character ends a piece, empty pieces are kept.\<close>
  "split_on P [] = [[]]"
| "split_on P (c # cs) =
     (if P c then [] # split_on P cs
      else (let r = split_on P cs in (c # hd r) # tl r))"

definition remove_newlines :: "string \<Rightarrow> string" where
  \<comment> \<open>\<open>s.replace("\n", "")\<close>\<close>
  "remove_newlines s = filter (\<lambda>c. c \<noteq> CHR 0x0A) s"

definition startswith_dot_hash :: "string \<Rightarrow> bool" where
  \<comment> \<open>\<open>key.startswith((".", "#"))\<close>\<close>
  "startswith_dot_hash key =
     (case key of [] \<Rightarrow> False | c # _ \<Rightarrow> c = CHR ''.'' \<or> c = CHR ''#'')"

section \<open>Python dictionaries\<close>

text \<open>
  A \<open>dict\<close> keeps its keys in insertion order, and the program's output depends on that
  order, so a dictionary is an association list. Assigning to a key that is present
  replaces the value where it stands; assigning to a new key appends it.
\<close>

type_synonym ('k, 'v) dict = "('k \<times> 'v) list"

fun dict_set :: "'k \<Rightarrow> 'v \<Rightarrow> ('k, 'v) dict \<Rightarrow> ('k, 'v) dict" where
  \<comment> \<open>\<open>d[k] = v\<close>\<close>
  "dict_set k v [] = [(k, v)]"
| "dict_set k v ((k', v') # d) =
     (if k' = k then (k, v) # d else (k', v') # dict_set k v d)"

fun dict_modify :: "'k \<Rightarrow> ('v \<Rightarrow> 'v) \<Rightarrow> ('k, 'v) dict \<Rightarrow> ('k, 'v) dict" where
  \<comment> \<open>an update of the value stored under a key that is present,
      as in \<open>d[k]["comment"] = c\<close> or \<open>d[k] += x\<close>\<close>
  "dict_modify k f [] = []"
| "dict_modify k f ((k', v') # d) =
     (if k' = k then (k', f v') # d else (k', v') # dict_modify k f d)"

definition dict_keys :: "('k, 'v) dict \<Rightarrow> 'k list" where
  "dict_keys d = map fst d"

definition dict_get :: "('k, 'v) dict \<Rightarrow> 'k \<Rightarrow> 'v" where
  \<comment> \<open>\<open>d[k]\<close> for a key taken from \<open>d\<close> itself\<close>
  "dict_get d k = the (map_of d k)"

definition dict_of_list :: "('k \<times> 'v) list \<Rightarrow> ('k, 'v) dict" where
  \<comment> \<open>a dict comprehension \<open>{k: v for ...}\<close>: the pairs are stored one by one\<close>
  "dict_of_list kvs = foldl (\<lambda>d (k, v). dict_set k v d) [] kvs"

definition dict_merge :: "('k, 'v) dict \<Rightarrow> ('k, 'v) dict \<Rightarrow> ('k, 'v) dict" where
  \<comment> \<open>\<open>{**a, **b}\<close>\<close>
  "dict_merge a b = foldl (\<lambda>d (k, v). dict_set k v d) a b"

datatype error = IndexError | TypeError

section \<open>Parsing the stylesheet\<close>

text \<open>
  \<open>cssutils.parseString\<close> is outside the program. Its result, \<open>sheet.cssRules\<close>, is a
  sequence of nodes: a comment with its \<open>cssText\<close>, or a style rule with its
  \<open>selectorText\<close> and the \<open>cssText\<close> of its declaration block.
\<close>

datatype css_node = CSSComment string | CSSStyleRule string string

record raw_entry =
  raw_comment :: string
  raw_props :: string

record css_entry =
  comment :: string
  props :: "string list"

fun css_to_dict_step ::
  "(string, raw_entry) dict \<times> string \<Rightarrow> css_node \<Rightarrow> (string, raw_entry) dict \<times> string" where
  \<comment> \<open>one turn of the loop of \<open>css_to_dict\<close>; the state is \<open>(css_dict, comment)\<close>\<close>
  "css_to_dict_step (css_dict, cmt) (CSSComment text) = (css_dict, text)"
| "css_to_dict_step (css_dict, cmt) (CSSStyleRule selectorText style) =
     (let d1 = (if selectorText \<notin> set (dict_keys css_dict)
                then dict_set selectorText \<lparr>raw_comment = [], raw_props = []\<rparr> css_dict
                else css_dict);
          d2 = dict_modify selectorText (\<lambda>e. e\<lparr>raw_comment := cmt\<rparr>) d1;
          d3 = dict_modify selectorText (\<lambda>e. e\<lparr>raw_props := style\<rparr>) d2
      in (d3, []))"

definition css_to_dict_loop ::
  "css_node list \<Rightarrow> (string, raw_entry) dict \<times> string" where
  "css_to_dict_loop rules = foldl css_to_dict_step ([], []) rules"

definition css_to_dict :: "css_node list \<Rightarrow> (string, raw_entry) dict" where
  "css_to_dict rules = fst (css_to_dict_loop rules)"

definition split_properties :: "string \<Rightarrow> string list" where
  \<comment> \<open>\<open>[prop.replace("\n", "").strip() for prop in re.split(";", props)]\<close>\<close>
  "split_properties s =
     map (\<lambda>prop. strip (remove_newlines prop)) (split_on (\<lambda>c. c = CHR '';'') s)"

definition format_selector ::
  "string \<Rightarrow> string list \<Rightarrow> (string, css_entry) dict \<Rightarrow> string \<Rightarrow> (string, css_entry) dict" where
  \<comment> \<open>the body of the inner loop of \<open>format_css_dict\<close>\<close>
  "format_selector cmt split_props formated selector0 =
     (let selector = strip selector0 in
      if selector \<notin> set (dict_keys formated)
      then dict_set selector \<lparr>comment = cmt, props = split_props\<rparr> formated
      else dict_modify selector (\<lambda>e. e\<lparr>props := props e @ split_props\<rparr>)
             (dict_modify selector (\<lambda>e. e\<lparr>comment := comment e @ cmt\<rparr>) formated))"

definition format_item ::
  "(string, css_entry) dict \<Rightarrow> string \<times> raw_entry \<Rightarrow> (string, css_entry) dict" where
  \<comment> \<open>the body of the outer loop of \<open>format_css_dict\<close>\<close>
  "format_item formated item =
     (case item of (selectors, values) \<Rightarrow>
        foldl (format_selector (raw_comment values) (split_properties (raw_props values)))
          formated (split_on (\<lambda>c. c = CHR '','') selectors))"

definition format_merge :: "(string, raw_entry) dict \<Rightarrow> (string, css_entry) dict" where
  \<comment> \<open>\<open>formated_css_dict\<close> when the loops of \<open>format_css_dict\<close> are over\<close>
  "format_merge css_dict = foldl format_item [] css_dict"

definition format_css_dict :: "(string, raw_entry) dict \<Rightarrow> (string, css_entry) dict" where
  "format_css_dict css_dict =
     dict_of_list
       (map (\<lambda>(key, value). (key, \<lparr>comment = comment value, props = sort (props value)\<rparr>))
          (format_merge css_dict))"

definition parse_css :: "css_node list \<Rightarrow> (string, css_entry) dict" where
  \<comment> \<open>what \<open>main\<close> does to a stylesheet before sorting\<close>
  "parse_css rules = format_css_dict (css_to_dict rules)"

section \<open>Sorting\<close>

definition sort_css_by_keys :: "(string, 'v) dict \<Rightarrow> (string, 'v) dict" where
  "sort_css_by_keys css_dict =
     (let tags = dict_of_list
            (map (\<lambda>key. (key, dict_get css_dict key))
               (filter (\<lambda>key. \<not> startswith_dot_hash key) (sort (dict_keys css_dict))));
          ids_classes = dict_of_list
            (map (\<lambda>key. (key, dict_get css_dict key))
               (filter startswith_dot_hash (sort (dict_keys css_dict))))
      in dict_merge tags ids_classes)"

definition leading_pieces :: "string \<Rightarrow> string list" where
  \<comment> \<open>\<open>list(filter(None, re.split(" |:", css)))\<close>\<close>
  "leading_pieces css =
     filter (\<lambda>p. p \<noteq> []) (split_on (\<lambda>c. c = CHR '' '' \<or> c = CHR '':'') css)"

fun fold_err :: "('s \<Rightarrow> 'a \<Rightarrow> error + 's) \<Rightarrow> 's \<Rightarrow> 'a list \<Rightarrow> error + 's" where
  \<comment> \<open>a \<open>for\<close> loop whose body may raise: the first exception ends it\<close>
  "fold_err f s [] = Inr s"
| "fold_err f s (x # xs) =
     (case f s x of Inl e \<Rightarrow> Inl e | Inr s' \<Rightarrow> fold_err f s' xs)"

definition place_css ::
  "string \<Rightarrow> (string, 'v) dict \<Rightarrow> string \<times> 'v \<Rightarrow> error + (string, 'v) dict" where
  \<comment> \<open>the body of the inner loop of \<open>sort_css_by_html\<close>; \<open>[0]\<close> on an empty list raises\<close>
  "place_css html_elem result item =
     (case item of (css, value) \<Rightarrow>
        (case leading_pieces css of
           [] \<Rightarrow> Inl IndexError
         | p # _ \<Rightarrow>
             if strip p = html_elem \<and> css \<notin> set (dict_keys result)
             then Inr (dict_set css value result)
             else Inr result))"

definition sort_css_by_html ::
  "(string, 'v) dict \<Rightarrow> string list \<Rightarrow> error + (string, 'v) dict" where
  "sort_css_by_html css_dict html_element_order =
     fold_err (\<lambda>result html_elem. fold_err (place_css html_elem) result css_dict)
       [] html_element_order"

section \<open>Rendering\<close>

definition render_item :: "string \<Rightarrow> string \<times> css_entry \<Rightarrow> string" where
  \<comment> \<open>the body of the loop of \<open>generate_output_str\<close>\<close>
  "render_item result_str item =
     (case item of (key, value) \<Rightarrow>
        (let r1 = (if comment value \<noteq> []
                   then result_str @ [CHR 0x0A] @ comment value @ [CHR 0x0A]
                   else result_str @ [CHR 0x0A]);
             r2 = r1 @ key @ '' {'' @ [CHR 0x0A];
             r3 = foldl (\<lambda>r prop. r @ ''    '' @ prop @ '';'' @ [CHR 0x0A]) r2 (props value)
         in r3 @ ''}'' @ [CHR 0x0A]))"

definition generate_output_str :: "(string, css_entry) dict \<Rightarrow> string" where
  "generate_output_str css_dict = foldl render_item [] css_dict"

section \<open>Flattening the HTML document\<close>

text \<open>
  \<open>bs4.BeautifulSoup\<close> is outside the program. Its result is a tree of page elements:
  a string (text, comment, doctype), or a tag with its name, its attributes
  and its contents. Of the attributes the program reads \<open>id\<close>, a string, and \<open>class\<close>,
  a list of strings; of the others only whether there are any.
\<close>

datatype attrs =
  Attrs (attr_id: "string option") (attr_class: "string list option")
        (attr_other: "(string \<times> string) list")

datatype page_element =
  NavigableString string
| Tag string attrs "page_element list"

definition attrs_nonempty :: "attrs \<Rightarrow> bool" where
  \<comment> \<open>the truth value of \<open>element.attrs\<close>\<close>
  "attrs_nonempty a = (attr_id a \<noteq> None \<or> attr_class a \<noteq> None \<or> attr_other a \<noteq> [])"

text \<open>
  The nested dictionary that \<open>recurse\<close> builds for one element: the key
  \<open>"attributes"\<close>, stored first when the element has attributes, and then one key per
  tag name among the children, bound to the list of the dictionaries of the children
  of that name.
\<close>

datatype html_dict =
  HtmlDict (attributes: "attrs option") (tags: "(string, html_dict list) dict")

definition append_child ::
  "string \<Rightarrow> html_dict \<Rightarrow> (string, html_dict list) dict \<Rightarrow> (string, html_dict list) dict" where
  \<comment> \<open>\<open>if not name in collector: collector[name] = []\<close> and then
      \<open>collector[name] += (child,)\<close>, for a name bound to a list\<close>
  "append_child name child ts =
     dict_modify name (\<lambda>l. l @ [child])
       (if name \<notin> set (dict_keys ts) then dict_set name [] ts else ts)"

fun recurse :: "page_element list \<Rightarrow> html_dict \<Rightarrow> error + html_dict" where
  "recurse [] collector_dict = Inr collector_dict"
| "recurse (NavigableString s # html_groups) collector_dict =
     recurse html_groups collector_dict"
| "recurse (Tag name a contents # html_groups) (HtmlDict ao ts) =
     (let tmp_collector = (if attrs_nonempty a then HtmlDict (Some a) [] else HtmlDict None [])
      in case recurse contents tmp_collector of
           Inl e \<Rightarrow> Inl e
         | Inr child \<Rightarrow>
             if name = ''attributes'' \<and> ao \<noteq> None
             then Inl TypeError
             else recurse html_groups (HtmlDict ao (append_child name child ts)))"

definition attr_identifiers :: "attrs \<Rightarrow> string list" where
  \<comment> \<open>what the loop body yields at the key \<open>"attributes"\<close>\<close>
  "attr_identifiers a =
     (case attr_id a of None \<Rightarrow> [] | Some i \<Rightarrow> [''#'' @ i]) @
     (case attr_class a of None \<Rightarrow> [] | Some cs \<Rightarrow> map (\<lambda>class_name. ''.'' @ class_name) cs)"

fun concat_err :: "(error + 'a list) list \<Rightarrow> error + 'a list" where
  \<comment> \<open>generators run one after the other; the first exception ends the iteration\<close>
  "concat_err [] = Inr []"
| "concat_err (r # rs) =
     (case r of
        Inl e \<Rightarrow> Inl e
      | Inr xs \<Rightarrow> (case concat_err rs of Inl e \<Rightarrow> Inl e | Inr ys \<Rightarrow> Inr (xs @ ys)))"

function get_identifiers_list :: "html_dict list \<Rightarrow> error + string list"
  and get_identifiers_dict :: "html_dict \<Rightarrow> error + string list" where
  "get_identifiers_list html_dict =
     (case html_dict of
        [] \<Rightarrow> Inl IndexError
      | first # _ \<Rightarrow>
          (case map_of (tags first) ''body'' of
             Some start_node \<Rightarrow>
               (case concat_err (map get_identifiers_dict start_node) of
                  Inl e \<Rightarrow> Inl e
                | Inr ids \<Rightarrow> Inr (''body'' # ids))
           | None \<Rightarrow> concat_err (map get_identifiers_dict html_dict)))"
| "get_identifiers_dict (HtmlDict ao ts) =
     (case concat_err
             (map (\<lambda>(key, value).
                     case get_identifiers_list value of
                       Inl e \<Rightarrow> Inl e
                     | Inr ids \<Rightarrow> Inr ((if key \<noteq> ''attributes'' then [key] else []) @ ids))
                ts) of
        Inl e \<Rightarrow> Inl e
      | Inr ids \<Rightarrow> Inr ((case ao of None \<Rightarrow> [] | Some a \<Rightarrow> attr_identifiers a) @ ids))"
  by pat_completeness auto
termination
proof (relation "measure (case_sum (size_list size) size)", goal_cases)
  have mem: "x \<in> set xs \<Longrightarrow> f x < size_list f xs" for f :: "'a \<Rightarrow> nat" and x xs
    by (induction xs) auto
  {
    case 1
    show ?case by simp
  next
    case (2 html_dict first rest x)
    from mem[OF 2(3), of size] show ?case by simp
  next
    case (3 html_dict first rest start_node x)
    from 3(2) have "(''body'', start_node) \<in> set (tags first)" by (rule map_of_SomeD)
    from mem[OF this, of "size_prod (\<lambda>x. 0) (size_list size)"]
    have "size_list size start_node < size first" by (cases first) simp
    with mem[OF 3(3), of size] show ?case by (simp add: 3(1))
  next
    case (4 ao ts p key "value")
    from mem[OF 4(1), of "size_prod (\<lambda>x. 0) (size_list size)"] 4(2)[symmetric]
    show ?case by simp
  }
qed

declare get_identifiers_list.simps [simp del]

definition identifiers_in_order :: "page_element list \<Rightarrow> error + string list" where
  \<comment> \<open>the identifiers that the generator of \<open>get_html_element_order\<close> yields;
      a missing key \<open>"html"\<close> is the \<open>KeyError\<close> that the function handles\<close>
  "identifiers_in_order soup_contents =
     (case recurse soup_contents (HtmlDict None []) of
        Inl e \<Rightarrow> Inl e
      | Inr html_dict \<Rightarrow>
          (case map_of (tags html_dict) ''html'' of
             Some html \<Rightarrow> get_identifiers_list html
           | None \<Rightarrow> get_identifiers_dict html_dict))"

definition fromkeys :: "'k list \<Rightarrow> ('k, unit) dict" where
  \<comment> \<open>\<open>dict.fromkeys(iterable)\<close>\<close>
  "fromkeys ks = foldl (\<lambda>d k. dict_set k () d) [] ks"

definition get_html_element_order :: "page_element list \<Rightarrow> error + string list" where
  "get_html_element_order soup_contents =
     (case identifiers_in_order soup_contents of
        Inl e \<Rightarrow> Inl e
      | Inr ids \<Rightarrow> Inr (dict_keys (fromkeys ids)))"

section \<open>Notions of the specification\<close>

text \<open>
  The comment that belongs to a style rule, in the words of the specification: the
  nearest comment node before the rule with no style rule in between, and the empty
  text when there is none. The argument is the sequence of nodes before the rule.
\<close>

definition nearest_comment :: "css_node list \<Rightarrow> string" where
  "nearest_comment before =
     (case takeWhile (\<lambda>n. case n of CSSComment _ \<Rightarrow> True | CSSStyleRule _ _ \<Rightarrow> False) (rev before) of
        [] \<Rightarrow> []
      | CSSComment text # _ \<Rightarrow> text
      | CSSStyleRule _ _ # _ \<Rightarrow> [])"

text \<open>
  One block of the output in the words of the specification: the comment and a newline
  when the comment is not empty, a bare newline otherwise; the selector, a space and an
  opening brace on one line; one indented line per property; the closing brace.
\<close>

definition claimed_block :: "string \<times> css_entry \<Rightarrow> string" where
  "claimed_block item =
     (case item of (key, value) \<Rightarrow>
        (if comment value \<noteq> [] then comment value @ [CHR 0x0A] else [CHR 0x0A]) @
        key @ '' {'' @ [CHR 0x0A] @
        concat (map (\<lambda>prop. ''    '' @ prop @ '';'' @ [CHR 0x0A]) (props value)) @
        ''}'' @ [CHR 0x0A])"

text \<open>
  The block as the program writes it: every block starts with a newline, and a comment
  that is not empty follows on a line of its own.
\<close>

definition rendered_block :: "string \<times> css_entry \<Rightarrow> string" where
  "rendered_block item =
     (case item of (key, value) \<Rightarrow>
        [CHR 0x0A] @
        (if comment value \<noteq> [] then comment value @ [CHR 0x0A] else []) @
        key @ '' {'' @ [CHR 0x0A] @
        concat (map (\<lambda>prop. ''    '' @ prop @ '';'' @ [CHR 0x0A]) (props value)) @
        ''}'' @ [CHR 0x0A])"

text \<open>
  The leading simple token of a selector: the first piece that is not empty when the
  selector is split on spaces and colons, trimmed. A selector made of spaces and colons
  only has none.
\<close>

definition leading_token :: "string \<Rightarrow> string option" where
  "leading_token css = (case leading_pieces css of [] \<Rightarrow> None | p # _ \<Rightarrow> Some (strip p))"

definition matching :: "string \<Rightarrow> (string, 'v) dict \<Rightarrow> (string, 'v) dict" where
  \<comment> \<open>the entries whose leading token is the identifier, in the order of the dictionary\<close>
  "matching html_elem css_dict =
     filter (\<lambda>item. leading_token (fst item) = Some html_elem) css_dict"

text \<open>
  The tokens of a sequence at the positions of a first occurrence, in the order of the
  positions: position \<open>i\<close> counts when the token there is not among the \<open>i\<close> tokens
  before it.
\<close>

definition first_occurrences :: "'a list \<Rightarrow> 'a list" where
  "first_occurrences xs =
     map (\<lambda>i. xs ! i) (filter (\<lambda>i. xs ! i \<notin> set (take i xs)) [0..<length xs])"

text \<open>
  The order of the identifiers of one element in the words of the specification:
  \<open>#id\<close> when the element has an id, one \<open>.class\<close> per class name, the tag name, and
  then the identifiers of the children in document order.
\<close>

fun claimed_identifiers :: "page_element \<Rightarrow> string list" where
  "claimed_identifiers (NavigableString s) = []"
| "claimed_identifiers (Tag name a contents) =
     attr_identifiers a @ [name] @ concat (map claimed_identifiers contents)"

text \<open>
  The order the program has. The elements of one level are taken by tag name, the names
  in the order of their first element: the name comes first, once, and then each
  element of that name in document order gives its \<open>#id\<close>, its \<open>.class\<close> tokens and the
  identifiers of its own contents.
\<close>

fun tag_names :: "page_element list \<Rightarrow> string list" where
  "tag_names [] = []"
| "tag_names (NavigableString s # groups) = tag_names groups"
| "tag_names (Tag name a contents # groups) = name # tag_names groups"

fun emitted_identifiers :: "page_element list \<Rightarrow> string list" where
  "emitted_identifiers groups =
     concat (map (\<lambda>name.
        name # concat (map (\<lambda>elem.
          case elem of
            NavigableString _ \<Rightarrow> []
          | Tag n a contents \<Rightarrow>
              if n = name then attr_identifiers a @ emitted_identifiers contents else [])
          groups))
       (first_occurrences (tag_names groups)))"

fun no_reserved_name :: "page_element \<Rightarrow> bool" where
  \<comment> \<open>no tag of the tree is named like a key the program gives a meaning of its own\<close>
  "no_reserved_name (NavigableString s) = True"
| "no_reserved_name (Tag name a contents) =
     (name \<noteq> ''body'' \<and> name \<noteq> ''attributes'' \<and> list_all no_reserved_name contents)"

fun no_attributes_name :: "page_element \<Rightarrow> bool" where
  \<comment> \<open>no tag of the tree is named \<open>attributes\<close>\<close>
  "no_attributes_name (NavigableString s) = True"
| "no_attributes_name (Tag name a contents) =
     (name \<noteq> ''attributes'' \<and> list_all no_attributes_name contents)"

text \<open>The dictionary that \<open>recurse\<close> builds, as a function of the elements.\<close>

fun build_tags ::
  "page_element list \<Rightarrow> (string, html_dict list) dict \<Rightarrow> (string, html_dict list) dict" where
  "build_tags [] ts = ts"
| "build_tags (NavigableString s # groups) ts = build_tags groups ts"
| "build_tags (Tag name a contents # groups) ts =
     build_tags groups
       (append_child name
          (HtmlDict (if attrs_nonempty a then Some a else None) (build_tags contents [])) ts)"

definition element_dict :: "page_element \<Rightarrow> html_dict" where
  \<comment> \<open>the dictionary of one element: \<open>recurse(elem, tmp_collector)\<close>\<close>
  "element_dict elem =
     (case elem of
        NavigableString _ \<Rightarrow> HtmlDict None []
      | Tag name a contents \<Rightarrow>
          HtmlDict (if attrs_nonempty a then Some a else None) (build_tags contents []))"

fun is_named :: "string \<Rightarrow> page_element \<Rightarrow> bool" where
  "is_named name (NavigableString s) = False"
| "is_named name (Tag n a contents) = (n = name)"

definition element_identifiers :: "page_element \<Rightarrow> string list" where
  \<comment> \<open>what one element gives after its tag name\<close>
  "element_identifiers elem =
     (case elem of
        NavigableString _ \<Rightarrow> []
      | Tag n a contents \<Rightarrow> attr_identifiers a @ emitted_identifiers contents)"

fun element_contents :: "page_element \<Rightarrow> page_element list" where
  "element_contents (NavigableString s) = []"
| "element_contents (Tag n a contents) = contents"

text \<open>
  The style rules of a parsed stylesheet in encounter order, each with the comment
  that is pending when the rule is reached.
\<close>

fun style_blocks :: "string \<Rightarrow> css_node list \<Rightarrow> (string \<times> raw_entry) list" where
  "style_blocks pending [] = []"
| "style_blocks pending (CSSComment text # rules) = style_blocks text rules"
| "style_blocks pending (CSSStyleRule selectorText style # rules) =
     (selectorText, \<lparr>raw_comment = pending, raw_props = style\<rparr>) # style_blocks [] rules"

text \<open>
  Every selector of every block in encounter order, with the comment and the
  declarations of its block: a block with a comma-separated group gives one occurrence
  per selector of the group.
\<close>

definition selector_occurrences ::
  "(string \<times> raw_entry) list \<Rightarrow> (string \<times> string \<times> string list) list" where
  "selector_occurrences blocks =
     concat (map (\<lambda>(selectors, values).
                    map (\<lambda>selector. (strip selector, raw_comment values,
                                       split_properties (raw_props values)))
                      (split_on (\<lambda>c. c = CHR '','') selectors))
               blocks)"

definition merged_comment :: "string \<Rightarrow> (string \<times> string \<times> string list) list \<Rightarrow> string" where
  \<comment> \<open>the comments of the occurrences of a selector, concatenated in encounter order\<close>
  "merged_comment selector occs =
     concat (map (\<lambda>occ. fst (snd occ)) (filter (\<lambda>occ. fst occ = selector) occs))"

definition merged_props :: "string \<Rightarrow> (string \<times> string \<times> string list) list \<Rightarrow> string list" where
  \<comment> \<open>the declaration lists of the occurrences of a selector, concatenated in encounter order\<close>
  "merged_props selector occs =
     concat (map (\<lambda>occ. snd (snd occ)) (filter (\<lambda>occ. fst occ = selector) occs))"

definition merge_occurrence ::
  "(string, css_entry) dict \<Rightarrow> string \<times> string \<times> string list \<Rightarrow> (string, css_entry) dict" where
  \<comment> \<open>\<open>format_selector\<close> for a selector that is already trimmed\<close>
  "merge_occurrence formated occ =
     (case occ of (selector, cmt, split_props) \<Rightarrow>
        if selector \<notin> set (dict_keys formated)
        then dict_set selector \<lparr>comment = cmt, props = split_props\<rparr> formated
        else dict_modify selector (\<lambda>e. \<lparr>comment = comment e @ cmt, props = props e @ split_props\<rparr>)
               formated)"

text \<open>
  The order of the identifiers of one element with the tag name first: the tag name,
  \<open>#id\<close> when the element has an id, one \<open>.class\<close> per class name, and then the
  identifiers of the children in document order.
\<close>

fun tag_first_identifiers :: "page_element \<Rightarrow> string list" where
  "tag_first_identifiers (NavigableString s) = []"
| "tag_first_identifiers (Tag name a contents) =
     [name] @ attr_identifiers a @ concat (map tag_first_identifiers contents)"

fun plain_element :: "page_element \<Rightarrow> bool" where
  \<comment> \<open>no tag of the tree is named \<open>body\<close> or \<open>attributes\<close>, and no two children of one
      element have the same tag name\<close>
  "plain_element (NavigableString s) = True"
| "plain_element (Tag name a contents) =
     (name \<noteq> ''body'' \<and> name \<noteq> ''attributes'' \<and>
      distinct (tag_names contents) \<and> list_all plain_element contents)"

section \<open>Dictionaries: keys and lookups\<close>

lemma keys_dict_set:
  "map fst (dict_set k v d) = (if k \<in> set (map fst d) then map fst d else map fst d @ [k])"
  by (induction d) force+

lemma map_of_dict_set: "map_of (dict_set k v d) = (map_of d)(k \<mapsto> v)"
  by (induction d) auto

lemma map_of_dict_modify:
  "map_of (dict_modify k f d) k' =
     (if k' = k then map_option f (map_of d k) else map_of d k')"
  by (induction d) auto

section \<open>Comments attach to the next style rule\<close>

lemma css_to_dict_loop_snoc:
  "css_to_dict_loop (rules @ [n]) = css_to_dict_step (css_to_dict_loop rules) n"
  by (simp add: css_to_dict_loop_def)

lemma pending_comment: "snd (css_to_dict_loop rules) = nearest_comment rules"
proof (induction rules rule: rev_induct)
  case Nil
  show ?case by (simp add: css_to_dict_loop_def nearest_comment_def)
next
  case (snoc n rules)
  obtain d c where dc: "css_to_dict_loop rules = (d, c)" by (cases "css_to_dict_loop rules")
  show ?case
    by (cases n) (simp_all add: css_to_dict_loop_snoc dc nearest_comment_def Let_def)
qed

lemma raw_entry_overwrite:
  "(e::raw_entry)\<lparr>raw_comment := c, raw_props := st\<rparr> = \<lparr>raw_comment = c, raw_props = st\<rparr>"
  by (cases e) simp

lemma style_step_stored:
  assumes "css_to_dict_step (d, c) (CSSStyleRule sel st) = (d', c')"
  shows "map_of d' sel = Some \<lparr>raw_comment = c, raw_props = st\<rparr> \<and> c' = []"
proof (cases "sel \<in> set (dict_keys d)")
  case True
  then obtain e where "map_of d sel = Some e"
    by (auto simp: dict_keys_def weak_map_of_SomeI dest!: weak_map_of_SomeI)
  with True assms show ?thesis
    by (auto simp: Let_def map_of_dict_modify raw_entry_overwrite)
next
  case False
  with assms show ?thesis
    by (auto simp: Let_def map_of_dict_modify map_of_dict_set)
qed

text \<open>
  C7. When \<open>css_to_dict\<close> handles a style rule, the comment it stores for the rule is
  the text of the nearest comment node before it with no style rule in between, and the
  empty text when there is none; the pending comment is that text before the rule and is
  empty after it, so a style rule that follows another one directly gets the empty
  comment: a comment node reaches one style rule at most.
\<close>

theorem css_to_dict_comment:
  "snd (css_to_dict_loop rules) = nearest_comment rules \<and>
   map_of (fst (css_to_dict_loop (rules @ [CSSStyleRule sel st]))) sel
     = Some \<lparr>raw_comment = nearest_comment rules, raw_props = st\<rparr> \<and>
   snd (css_to_dict_loop (rules @ [CSSStyleRule sel st])) = [] \<and>
   map_of (fst (css_to_dict_loop (rules @ [CSSStyleRule sel st, CSSStyleRule sel' st']))) sel'
     = Some \<lparr>raw_comment = [], raw_props = st'\<rparr>"
proof -
  obtain d c where dc: "css_to_dict_loop rules = (d, c)" by (cases "css_to_dict_loop rules")
  have c: "c = nearest_comment rules" using pending_comment[of rules] dc by simp
  obtain d1 c1 where s1: "css_to_dict_step (d, c) (CSSStyleRule sel st) = (d1, c1)"
    by (metis surj_pair)
  obtain d2 c2 where s2: "css_to_dict_step (d1, c1) (CSSStyleRule sel' st') = (d2, c2)"
    by (metis surj_pair)
  have l1: "css_to_dict_loop (rules @ [CSSStyleRule sel st]) = (d1, c1)"
    by (simp only: css_to_dict_loop_snoc dc s1)
  have "css_to_dict_loop (rules @ [CSSStyleRule sel st, CSSStyleRule sel' st'])
          = css_to_dict_step (css_to_dict_loop (rules @ [CSSStyleRule sel st])) (CSSStyleRule sel' st')"
    using css_to_dict_loop_snoc[of "rules @ [CSSStyleRule sel st]"] by simp
  then have l2: "css_to_dict_loop (rules @ [CSSStyleRule sel st, CSSStyleRule sel' st']) = (d2, c2)"
    by (simp only: l1 s2)
  from style_step_stored[OF s1] style_step_stored[OF s2] pending_comment[of rules]
  show ?thesis by (simp add: l1 l2 dc c)
qed

section \<open>Dictionaries built by comprehension and merge\<close>

lemma set_dict_set: "set (dict_set k v d) \<subseteq> insert (k, v) (set d)"
  by (induction d) (auto split: if_splits)

lemma foldl_dict_set_subset:
  "set (foldl (\<lambda>d (k, v). dict_set k v d) acc kvs) \<subseteq> set acc \<union> set kvs"
proof (induction kvs arbitrary: acc)
  case Nil
  show ?case by simp
next
  case (Cons p kvs)
  obtain k v where p: "p = (k, v)" by (cases p)
  from Cons[of "dict_set k v acc"] set_dict_set[of k v acc] show ?case
    by (auto simp: p)
qed

lemma dict_set_new: "k \<notin> set (map fst d) \<Longrightarrow> dict_set k v d = d @ [(k, v)]"
  by (induction d) auto

lemma foldl_dict_set_distinct:
  "distinct (map fst (acc @ kvs)) \<Longrightarrow>
     foldl (\<lambda>d (k, v). dict_set k v d) acc kvs = acc @ kvs"
proof (induction kvs arbitrary: acc)
  case Nil
  show ?case by simp
next
  case (Cons p kvs)
  obtain k v where p: "p = (k, v)" by (cases p)
  from Cons.prems have new: "k \<notin> set (map fst acc)" by (auto simp: p)
  from Cons.prems have "distinct (map fst ((acc @ [(k, v)]) @ kvs))" by (simp add: p)
  from Cons.IH[OF this] show ?case by (simp add: p dict_set_new[OF new])
qed

lemma dict_of_list_distinct: "distinct (map fst kvs) \<Longrightarrow> dict_of_list kvs = kvs"
  using foldl_dict_set_distinct[of "[]" kvs] by (simp add: dict_of_list_def)

lemma dict_of_list_subset: "set (dict_of_list kvs) \<subseteq> set kvs"
  using foldl_dict_set_subset[of "[]" kvs] by (simp add: dict_of_list_def)

lemma dict_merge_distinct: "distinct (map fst (a @ b)) \<Longrightarrow> dict_merge a b = a @ b"
  by (simp add: dict_merge_def foldl_dict_set_distinct)

lemma dict_merge_subset: "set (dict_merge a b) \<subseteq> set a \<union> set b"
  by (simp add: dict_merge_def foldl_dict_set_subset)

lemma dict_get_in: "k \<in> set (map fst d) \<Longrightarrow> (k, dict_get d k) \<in> set d"
proof -
  assume "k \<in> set (map fst d)"
  then obtain v where "map_of d k = Some v"
    by (metis list.set_map map_of_eq_None_iff not_Some_eq)
  then show ?thesis by (simp add: dict_get_def map_of_SomeD)
qed

section \<open>Sorting keeps the entries it is given\<close>

lemma sort_css_by_keys_subset: "set (sort_css_by_keys d) \<subseteq> set d"
proof -
  have "set (map (\<lambda>key. (key, dict_get d key)) (filter P (sort (dict_keys d)))) \<subseteq> set d" for P
    using dict_get_in[of _ d] by (auto simp: dict_keys_def)
  then show ?thesis
    unfolding sort_css_by_keys_def Let_def
    using dict_merge_subset dict_of_list_subset by (meson order_trans sup_least subset_trans)
qed

lemma place_css_subset:
  "place_css e result item = Inr result' \<Longrightarrow> set result' \<subseteq> insert item (set result)"
  using set_dict_set
  by (fastforce simp: place_css_def split: prod.splits list.splits if_splits)

lemma fold_err_place_subset:
  "fold_err (place_css e) result items = Inr result' \<Longrightarrow> set result' \<subseteq> set result \<union> set items"
proof (induction items arbitrary: result)
  case Nil
  then show ?case by simp
next
  case (Cons item items)
  then obtain r1 where r1: "place_css e result item = Inr r1"
    and rest: "fold_err (place_css e) r1 items = Inr result'"
    by (auto split: sum.splits)
  from place_css_subset[OF r1] Cons.IH[OF rest] show ?case by auto
qed

lemma sort_css_by_html_subset_gen:
  "fold_err (\<lambda>result html_elem. fold_err (place_css html_elem) result d) result es = Inr out
     \<Longrightarrow> set out \<subseteq> set result \<union> set d"
proof (induction es arbitrary: result)
  case Nil
  then show ?case by simp
next
  case (Cons e es)
  then obtain r1 where r1: "fold_err (place_css e) result d = Inr r1"
    and rest: "fold_err (\<lambda>result html_elem. fold_err (place_css html_elem) result d) r1 es = Inr out"
    by (auto split: sum.splits)
  from fold_err_place_subset[OF r1] Cons.IH[OF rest] show ?case by auto
qed

lemma sort_css_by_html_subset: "sort_css_by_html d es = Inr out \<Longrightarrow> set out \<subseteq> set d"
  using sort_css_by_html_subset_gen[of d "[]" es out] by (simp add: sort_css_by_html_def)

section \<open>Declarations are sorted within a block\<close>

lemma format_css_dict_sorted: "(k, e) \<in> set (format_css_dict d) \<Longrightarrow> sorted (props e)"
  using dict_of_list_subset by (fastforce simp: format_css_dict_def)

text \<open>
  C6. In the model that parsing produces, the properties list of every selector is sorted
  in the order of strings, and it still is in the output of either sort: the
  lexicographic one, and the one by HTML order whenever it returns.
\<close>

theorem properties_sorted:
  "(\<forall>(k, e) \<in> set (parse_css rules). sorted (props e)) \<and>
   (\<forall>(k, e) \<in> set (sort_css_by_keys (parse_css rules)). sorted (props e)) \<and>
   (\<forall>out. sort_css_by_html (parse_css rules) html_element_order = Inr out \<longrightarrow>
      (\<forall>(k, e) \<in> set out. sorted (props e)))"
  using format_css_dict_sorted sort_css_by_keys_subset sort_css_by_html_subset
  unfolding parse_css_def by blast

theorem properties_sorted_witness:
  "(''a'', \<lparr>comment = [], props = [''b: 2'', ''z: 1'']\<rparr>)
      \<in> set (parse_css [CSSStyleRule ''a, b'' ''z: 1'', CSSStyleRule ''a'' ''b: 2'']) \<and>
   (''a'', \<lparr>comment = [], props = [''b: 2'', ''z: 1'']\<rparr>)
      \<in> set (sort_css_by_keys (parse_css [CSSStyleRule ''a, b'' ''z: 1'', CSSStyleRule ''a'' ''b: 2''])) \<and>
   sort_css_by_html (parse_css [CSSStyleRule ''a, b'' ''z: 1'', CSSStyleRule ''a'' ''b: 2'']) [''a'']
      = Inr [(''a'', \<lparr>comment = [], props = [''b: 2'', ''z: 1'']\<rparr>)] \<and>
   sorted [''b: 2'', ''z: 1'']"
proof -
  have p: "parse_css [CSSStyleRule ''a, b'' ''z: 1'', CSSStyleRule ''a'' ''b: 2''] =
    [(''a'', \<lparr>comment = [], props = [''b: 2'', ''z: 1'']\<rparr>), (''b'', \<lparr>comment = [], props = [''z: 1'']\<rparr>)]"
    by code_simp
  have k: "sort_css_by_keys [(''a'', \<lparr>comment = [], props = [''b: 2'', ''z: 1'']\<rparr>), (''b'', \<lparr>comment = [], props = [''z: 1'']\<rparr>)]
     = [(''a'', \<lparr>comment = [], props = [''b: 2'', ''z: 1'']\<rparr>), (''b'', \<lparr>comment = [], props = [''z: 1'']\<rparr>)]"
    by code_simp
  have h: "sort_css_by_html [(''a'', \<lparr>comment = [], props = [''b: 2'', ''z: 1'']\<rparr>), (''b'', \<lparr>comment = [], props = [''z: 1'']\<rparr>)] [''a'']
     = Inr [(''a'', \<lparr>comment = [], props = [''b: 2'', ''z: 1'']\<rparr>)]"
    by code_simp
  from properties_sorted[of "[CSSStyleRule ''a, b'' ''z: 1'', CSSStyleRule ''a'' ''b: 2'']" "[''a'']"]
  show ?thesis unfolding p k h by simp
qed

section \<open>The lexicographic sort\<close>

lemma sort_css_by_keys_append:
  assumes "distinct (dict_keys d)"
  shows "sort_css_by_keys d =
     map (\<lambda>key. (key, dict_get d key)) (sort (filter (\<lambda>key. \<not> startswith_dot_hash key) (dict_keys d))) @
     map (\<lambda>key. (key, dict_get d key)) (sort (filter startswith_dot_hash (dict_keys d)))"
proof -
  let ?ks = "dict_keys d"
  let ?kv = "\<lambda>key. (key, dict_get d key)"
  let ?tags = "map ?kv (filter (\<lambda>key. \<not> startswith_dot_hash key) (sort ?ks))"
  let ?ids = "map ?kv (filter startswith_dot_hash (sort ?ks))"
  have ds: "distinct (sort ?ks)" using assms by simp
  have dt: "distinct (map fst ?tags)" using ds by (simp add: comp_def)
  have di: "distinct (map fst ?ids)" using ds by (simp add: comp_def)
  have dj: "distinct (map fst (?tags @ ?ids))"
    using ds by (auto simp: comp_def)
  have "sort_css_by_keys d = dict_merge (dict_of_list ?tags) (dict_of_list ?ids)"
    by (simp add: sort_css_by_keys_def Let_def)
  also have "\<dots> = ?tags @ ?ids"
    by (simp only: dict_of_list_distinct[OF dt] dict_of_list_distinct[OF di] dict_merge_distinct[OF dj])
  finally show ?thesis by (simp add: filter_sort)
qed

lemma sort_css_by_keys_keys:
  assumes "distinct (dict_keys d)"
  shows "dict_keys (sort_css_by_keys d) =
           sort (filter (\<lambda>key. \<not> startswith_dot_hash key) (dict_keys d)) @
           sort (filter startswith_dot_hash (dict_keys d))"
  by (simp add: sort_css_by_keys_append[OF assms] dict_keys_def comp_def)

text \<open>
  C5. The keys of the output of the lexicographic sort are the keys that do not start
  with \<open>.\<close> or \<open>#\<close>, sorted ascending in the order of strings, followed by the keys that
  do, sorted ascending; so every tag-selector key stands before every id or class key.
\<close>

theorem sort_css_by_keys_order:
  assumes "distinct (dict_keys css_dict)"
  shows "dict_keys (sort_css_by_keys css_dict) =
           sort (filter (\<lambda>key. \<not> startswith_dot_hash key) (dict_keys css_dict)) @
           sort (filter startswith_dot_hash (dict_keys css_dict)) \<and>
         (\<forall>i j. i < length (sort_css_by_keys css_dict) \<and> j < length (sort_css_by_keys css_dict) \<and>
           \<not> startswith_dot_hash (dict_keys (sort_css_by_keys css_dict) ! i) \<and>
           startswith_dot_hash (dict_keys (sort_css_by_keys css_dict) ! j) \<longrightarrow> i < j)"
proof (intro conjI allI impI, goal_cases)
  case 1
  show ?case by (rule sort_css_by_keys_keys[OF assms])
next
  case (2 i j)
  let ?A = "sort (filter (\<lambda>key. \<not> startswith_dot_hash key) (dict_keys css_dict))"
  let ?B = "sort (filter startswith_dot_hash (dict_keys css_dict))"
  have ks: "dict_keys (sort_css_by_keys css_dict) = ?A @ ?B"
    by (rule sort_css_by_keys_keys[OF assms])
  have A: "\<forall>k \<in> set ?A. \<not> startswith_dot_hash k" by simp
  have B: "\<forall>k \<in> set ?B. startswith_dot_hash k" by simp
  have len: "length (sort_css_by_keys css_dict) = length (?A @ ?B)"
    using ks by (metis dict_keys_def length_map)
  from 2 have i: "i < length (sort_css_by_keys css_dict)"
    and ti: "\<not> startswith_dot_hash (dict_keys (sort_css_by_keys css_dict) ! i)"
    and tj: "startswith_dot_hash (dict_keys (sort_css_by_keys css_dict) ! j)"
    by simp_all
  have "i < length ?A"
  proof (rule ccontr)
    assume "\<not> i < length ?A"
    then have "(?A @ ?B) ! i = ?B ! (i - length ?A)" and "i - length ?A < length ?B"
      using i len by (simp_all add: nth_append)
    then have "(?A @ ?B) ! i \<in> set ?B" by (metis nth_mem)
    with B ti ks show False by simp
  qed
  moreover have "\<not> j < length ?A"
  proof
    assume jA: "j < length ?A"
    then have "(?A @ ?B) ! j = ?A ! j" by (simp add: nth_append)
    with jA have "(?A @ ?B) ! j \<in> set ?A" by (metis nth_mem)
    with A tj ks show False by simp
  qed
  ultimately show ?case by simp
qed

theorem sort_css_by_keys_order_witness:
  "distinct (dict_keys [(''b'', 1::nat), (''.z'', 2), (''a'', 3), (''#k'', 4), (''B'', 5)]) \<and>
   dict_keys (sort_css_by_keys [(''b'', 1::nat), (''.z'', 2), (''a'', 3), (''#k'', 4), (''B'', 5)])
     = [''B'', ''a'', ''b'', ''#k'', ''.z'']"
proof -
  have h: "distinct (dict_keys [(''b'', 1::nat), (''.z'', 2), (''a'', 3), (''#k'', 4), (''B'', 5)])"
    by (simp add: dict_keys_def)
  have s: "sort (filter (\<lambda>key. \<not> startswith_dot_hash key)
                (dict_keys [(''b'', 1::nat), (''.z'', 2), (''a'', 3), (''#k'', 4), (''B'', 5)])) @
           sort (filter startswith_dot_hash
                (dict_keys [(''b'', 1::nat), (''.z'', 2), (''a'', 3), (''#k'', 4), (''B'', 5)]))
           = [''B'', ''a'', ''b'', ''#k'', ''.z'']"
    by code_simp
  from sort_css_by_keys_order[OF h] h s show ?thesis by simp
qed

text \<open>
  C10. The lexicographic sort neither drops nor adds nor changes an entry: the output
  has the keys of the input, each once, as many entries as the input, and every key
  is bound to the rule it was bound to.
\<close>

theorem sort_css_by_keys_frame:
  assumes "distinct (dict_keys css_dict)"
  shows "set (dict_keys (sort_css_by_keys css_dict)) = set (dict_keys css_dict) \<and>
         distinct (dict_keys (sort_css_by_keys css_dict)) \<and>
         length (sort_css_by_keys css_dict) = length css_dict \<and>
         map_of (sort_css_by_keys css_dict) = map_of css_dict"
proof -
  let ?out = "sort_css_by_keys css_dict"
  have ks: "dict_keys ?out =
      sort (filter (\<lambda>key. \<not> startswith_dot_hash key) (dict_keys css_dict)) @
      sort (filter startswith_dot_hash (dict_keys css_dict))"
    by (rule sort_css_by_keys_keys[OF assms])
  have keyset: "set (dict_keys ?out) = set (dict_keys css_dict)"
    unfolding ks by auto
  have dist: "distinct (dict_keys ?out)"
    unfolding ks using assms by auto
  have "length (dict_keys ?out) = length (dict_keys css_dict)"
    unfolding ks by (simp add: sum_length_filter_compl add.commute)
  then have len: "length ?out = length css_dict" by (simp add: dict_keys_def)
  have "map_of ?out k = map_of css_dict k" for k
  proof (cases "map_of ?out k")
    case None
    then have "k \<notin> set (dict_keys css_dict)"
      using keyset by (simp add: dict_keys_def map_of_eq_None_iff)
    then have "map_of css_dict k = None" by (simp add: dict_keys_def map_of_eq_None_iff)
    with None show ?thesis by simp
  next
    case (Some v)
    then have "(k, v) \<in> set css_dict"
      using sort_css_by_keys_subset[of css_dict] map_of_SomeD by fastforce
    then have "map_of css_dict k = Some v"
      using assms by (simp add: dict_keys_def)
    with Some show ?thesis by simp
  qed
  then have "map_of ?out = map_of css_dict" by (rule ext)
  with keyset dist len show ?thesis by simp
qed

theorem sort_css_by_keys_frame_witness:
  "distinct (dict_keys [(''p'', \<lparr>comment = ''/* c */'', props = [''x: 1'']\<rparr>),
                         (''.k'', \<lparr>comment = [], props = [''y: 2'']\<rparr>),
                         (''a'', \<lparr>comment = [], props = []\<rparr>)]) \<and>
   map_of (sort_css_by_keys [(''p'', \<lparr>comment = ''/* c */'', props = [''x: 1'']\<rparr>),
                         (''.k'', \<lparr>comment = [], props = [''y: 2'']\<rparr>),
                         (''a'', \<lparr>comment = [], props = []\<rparr>)]) ''p''
     = Some \<lparr>comment = ''/* c */'', props = [''x: 1'']\<rparr> \<and>
   length (sort_css_by_keys [(''p'', \<lparr>comment = ''/* c */'', props = [''x: 1'']\<rparr>),
                         (''.k'', \<lparr>comment = [], props = [''y: 2'']\<rparr>),
                         (''a'', \<lparr>comment = [], props = []\<rparr>)]) = 3"
proof -
  have h: "distinct (dict_keys [(''p'', \<lparr>comment = ''/* c */'', props = [''x: 1'']\<rparr>),
                         (''.k'', \<lparr>comment = [], props = [''y: 2'']\<rparr>),
                         (''a'', \<lparr>comment = [], props = []\<rparr>)])"
    by (simp add: dict_keys_def)
  from sort_css_by_keys_frame[OF h] h show ?thesis by simp
qed

section \<open>The rendered text\<close>

lemma foldl_append_lines: "foldl (\<lambda>r x. r @ f x) acc xs = acc @ concat (map f xs)"
  by (induction xs arbitrary: acc) simp_all

lemma render_item_block: "render_item acc item = acc @ rendered_block item"
proof -
  obtain key val where item: "item = (key, val)" by (cases item)
  have lines: "foldl (\<lambda>r prop. r @ ''    '' @ prop @ '';'' @ [CHR 0x0A]) r (props val)
      = r @ concat (map (\<lambda>prop. ''    '' @ prop @ '';'' @ [CHR 0x0A]) (props val))" for r
    by (rule foldl_append_lines)
  show ?thesis
    unfolding item render_item_def rendered_block_def Let_def prod.case lines by simp
qed

lemma foldl_render_item: "foldl render_item acc d = acc @ concat (map rendered_block d)"
  by (induction d arbitrary: acc) (simp_all add: render_item_block)

text \<open>
  C4, as the program has it. The output is the concatenation, in the order of the
  dictionary, of one block per selector: a newline; the comment and a newline when the
  comment is not empty; the selector, a space, an opening brace and a newline; for each
  property in the order of the list four spaces, the property, a semicolon and a newline;
  a closing brace and a newline.
\<close>

theorem generate_output_str_blocks:
  "generate_output_str css_dict = concat (map rendered_block css_dict)"
  by (simp add: generate_output_str_def foldl_render_item)

text \<open>
  C4 as stated fails for a rule with a comment: the program writes a newline before the
  comment, so the block does not begin with the comment text.
\<close>

theorem generate_output_str_counterexample:
  "generate_output_str [(''a'', \<lparr>comment = ''/* c */'', props = [''x: 1'']\<rparr>)]
     = [CHR 0x0A] @ ''/* c */'' @ [CHR 0x0A] @ ''a {'' @ [CHR 0x0A] @ ''    x: 1;'' @ [CHR 0x0A] @ ''}'' @ [CHR 0x0A] \<and>
   generate_output_str [(''a'', \<lparr>comment = ''/* c */'', props = [''x: 1'']\<rparr>)]
     \<noteq> concat (map claimed_block [(''a'', \<lparr>comment = ''/* c */'', props = [''x: 1'']\<rparr>)])"
  by (simp add: generate_output_str_def render_item_def claimed_block_def)

section \<open>First occurrences\<close>

lemma first_occurrences_snoc:
  "first_occurrences (xs @ [x]) =
     (if x \<in> set xs then first_occurrences xs else first_occurrences xs @ [x])"
proof -
  let ?P = "\<lambda>i. (xs @ [x]) ! i \<notin> set (take i (xs @ [x]))"
  let ?g = "\<lambda>i. (xs @ [x]) ! i"
  have f: "filter ?P [0..<length xs] = filter (\<lambda>i. xs ! i \<notin> set (take i xs)) [0..<length xs]"
    by (rule filter_cong) (auto simp: nth_append)
  have m: "map ?g (filter (\<lambda>i. xs ! i \<notin> set (take i xs)) [0..<length xs])
         = map (\<lambda>i. xs ! i) (filter (\<lambda>i. xs ! i \<notin> set (take i xs)) [0..<length xs])"
    by (rule map_cong) (auto simp: nth_append)
  have old: "map ?g (filter ?P [0..<length xs]) = first_occurrences xs"
    unfolding f m first_occurrences_def by (rule refl)
  have new: "map ?g (filter ?P [length xs]) = (if x \<in> set xs then [] else [x])"
    by simp
  have "[0..<length (xs @ [x])] = [0..<length xs] @ [length xs]" by simp
  then have "first_occurrences (xs @ [x])
      = map ?g (filter ?P [0..<length xs]) @ map ?g (filter ?P [length xs])"
    unfolding first_occurrences_def by (simp only: filter_append map_append)
  then show ?thesis unfolding old new by simp
qed

lemma set_first_occurrences: "set (first_occurrences xs) = set xs"
proof (induction xs rule: rev_induct)
  case Nil
  show ?case by (simp add: first_occurrences_def)
next
  case (snoc x xs)
  then show ?case by (auto simp: first_occurrences_snoc)
qed

lemma distinct_first_occurrences: "distinct (first_occurrences xs)"
proof (induction xs rule: rev_induct)
  case Nil
  show ?case by (simp add: first_occurrences_def)
next
  case (snoc x xs)
  then show ?case by (simp add: first_occurrences_snoc set_first_occurrences)
qed

lemma first_occurrences_distinct: "distinct xs \<Longrightarrow> first_occurrences xs = xs"
proof (induction xs rule: rev_induct)
  case Nil
  show ?case by (simp add: first_occurrences_def)
next
  case (snoc x xs)
  then show ?case by (simp add: first_occurrences_snoc)
qed


section \<open>The sort by HTML order\<close>

lemma place_css_token:
  assumes "leading_token k = Some t"
  shows "place_css e result (k, v) =
           Inr (if t = e \<and> k \<notin> set (dict_keys result) then dict_set k v result else result)"
  using assms by (auto simp: place_css_def leading_token_def split: list.splits)

lemma matching_Cons:
  "matching e (item # items) =
     (if leading_token (fst item) = Some e then item # matching e items else matching e items)"
  by (simp add: matching_def)

lemma inner_loop_places:
  assumes "distinct (map fst items)"
    and "\<forall>k \<in> set (map fst items). leading_token k \<noteq> None"
  shows "fold_err (place_css e) result items =
           Inr (result @ filter (\<lambda>item. fst item \<notin> set (dict_keys result)) (matching e items))"
  using assms
proof (induction items arbitrary: result)
  case Nil
  show ?case by (simp add: matching_def)
next
  case (Cons item items)
  obtain k v where item: "item = (k, v)" by (cases item)
  from Cons.prems obtain t where t: "leading_token k = Some t" by (auto simp: item)
  from Cons.prems have dist: "distinct (map fst items)"
    and tok: "\<forall>k \<in> set (map fst items). leading_token k \<noteq> None"
    and fresh: "k \<notin> set (map fst items)"
    by (auto simp: item)
  show ?case
  proof (cases "t = e \<and> k \<notin> set (dict_keys result)")
    case True
    then have new: "k \<notin> set (map fst result)" by (simp add: dict_keys_def)
    have same: "filter (\<lambda>item. fst item \<notin> set (dict_keys (result @ [(k, v)]))) (matching e items)
              = filter (\<lambda>item. fst item \<notin> set (dict_keys result)) (matching e items)"
      using fresh by (intro filter_cong refl) (auto simp: dict_keys_def matching_def)
    from True t show ?thesis
      by (simp add: item place_css_token[OF t] dict_set_new[OF new]
            Cons.IH[OF dist tok] same matching_Cons)
  next
    case False
    with t show ?thesis
      by (auto simp: item place_css_token[OF t] Cons.IH[OF dist tok] matching_Cons)
  qed
qed

lemma fold_err_snoc:
  "fold_err f s (xs @ [x]) = (case fold_err f s xs of Inl e \<Rightarrow> Inl e | Inr s' \<Rightarrow> f s' x)"
  by (induction xs arbitrary: s) (simp_all split: sum.splits)

lemma outer_loop_first_occurrences:
  assumes "distinct (map fst d)"
    and "\<forall>k \<in> set (map fst d). leading_token k \<noteq> None"
  shows "fold_err (\<lambda>result html_elem. fold_err (place_css html_elem) result d) [] es =
           Inr (concat (map (\<lambda>e. matching e d) (first_occurrences es)))"
proof (induction es rule: rev_induct)
  case Nil
  show ?case by (simp add: first_occurrences_def)
next
  case (snoc e es)
  let ?R = "concat (map (\<lambda>e. matching e d) (first_occurrences es))"
  have keys: "set (dict_keys ?R) = {k \<in> fst ` set d. leading_token k \<in> Some ` set es}"
    by (auto simp: dict_keys_def matching_def set_first_occurrences)
  have placed: "filter (\<lambda>item. fst item \<notin> set (dict_keys ?R)) (matching e d)
      = (if e \<in> set es then [] else matching e d)"
  proof (cases "e \<in> set es")
    case True
    then have "\<forall>item \<in> set (matching e d). fst item \<in> set (dict_keys ?R)"
      unfolding keys by (auto simp: matching_def)
    with True show ?thesis by (simp add: filter_empty_conv)
  next
    case False
    then have "\<forall>item \<in> set (matching e d). fst item \<notin> set (dict_keys ?R)"
      unfolding keys by (auto simp: matching_def)
    with False show ?thesis by simp
  qed
  have "fold_err (\<lambda>result html_elem. fold_err (place_css html_elem) result d) [] (es @ [e])
      = fold_err (place_css e) ?R d"
    by (simp only: fold_err_snoc snoc sum.case)
  also have "\<dots> = Inr (?R @ filter (\<lambda>item. fst item \<notin> set (dict_keys ?R)) (matching e d))"
    by (rule inner_loop_places[OF assms])
  finally show ?case
    by (simp add: placed first_occurrences_snoc)
qed

text \<open>
  For a model whose keys all have a leading token, the sort by HTML order returns,
  for each identifier in the order of its first position in the sequence, the entries
  whose leading token is that identifier, in the order they have in the model. So the
  keys of the output are the keys whose leading token is in the sequence, placed by the
  position of their token, the keys of one token in their insertion order, and a key
  that matches no identifier is not in the output. For a sequence without repetition
  the identifiers are taken as they stand.
\<close>

lemma sort_css_by_html_with_tokens:
  assumes "distinct (dict_keys css_dict)"
    and "\<forall>k \<in> set (dict_keys css_dict). leading_token k \<noteq> None"
  shows "sort_css_by_html css_dict html_element_order =
           Inr (concat (map (\<lambda>e. matching e css_dict) (first_occurrences html_element_order))) \<and>
         set (concat (map (\<lambda>e. matching e css_dict) (first_occurrences html_element_order))) =
           {item \<in> set css_dict. leading_token (fst item) \<in> Some ` set html_element_order} \<and>
         (distinct html_element_order \<longrightarrow>
            sort_css_by_html css_dict html_element_order =
              Inr (concat (map (\<lambda>e. matching e css_dict) html_element_order)))"
proof -
  have out: "sort_css_by_html css_dict html_element_order =
      Inr (concat (map (\<lambda>e. matching e css_dict) (first_occurrences html_element_order)))"
    using outer_loop_first_occurrences[of css_dict html_element_order] assms
    by (simp add: sort_css_by_html_def dict_keys_def)
  have mem: "set (concat (map (\<lambda>e. matching e css_dict) (first_occurrences html_element_order))) =
      {item \<in> set css_dict. leading_token (fst item) \<in> Some ` set html_element_order}"
    by (auto simp: matching_def set_first_occurrences)
  from out mem show ?thesis by (simp add: first_occurrences_distinct)
qed

text \<open>
  C3. The output is to hold the keys whose leading token is an identifier of the
  sequence and no other key. For a model with a key that has no leading token there is
  no output: the sort raises \<open>IndexError\<close> at that key, also when another key of the
  model matches an identifier. Parsing produces such a key, the empty one, from the
  selector \<open>a[title=",,"]\<close>.
\<close>

theorem sort_css_by_html_no_output:
  "leading_token [] = None \<and>
   sort_css_by_html [(''a'', 1::nat), ([], 2)] [''a''] = Inl IndexError \<and>
   dict_keys (parse_css
      [CSSStyleRule ''a'' ''margin: 0'',
       CSSStyleRule (''a[title='' @ [CHR 0x22] @ '',,'' @ [CHR 0x22] @ '']'') ''color: red''])
     = [''a'', ''a[title='' @ [CHR 0x22], [], [CHR 0x22] @ '']''] \<and>
   sort_css_by_html
     (parse_css
        [CSSStyleRule ''a'' ''margin: 0'',
         CSSStyleRule (''a[title='' @ [CHR 0x22] @ '',,'' @ [CHR 0x22] @ '']'') ''color: red''])
     [''a'']
     = Inl IndexError"
  by code_simp

section \<open>Repeated identifiers are dropped\<close>

lemma fromkeys_snoc: "fromkeys (ks @ [k]) = dict_set k () (fromkeys ks)"
  by (simp add: fromkeys_def)

lemma keys_fromkeys: "dict_keys (fromkeys ks) = first_occurrences ks"
proof (induction ks rule: rev_induct)
  case Nil
  show ?case by (simp add: fromkeys_def dict_keys_def first_occurrences_def)
next
  case (snoc k ks)
  have "set (map fst (fromkeys ks)) = set ks"
    using snoc set_first_occurrences[of ks] by (simp add: dict_keys_def)
  with snoc show ?case
    by (simp add: fromkeys_snoc dict_keys_def keys_dict_set first_occurrences_snoc)
qed

text \<open>
  C8. Whenever the traversal yields its identifiers, the sequence that
  \<open>get_html_element_order\<close> returns has no repetition, has the identifiers that were
  yielded, and consists of the tokens at the positions of a first occurrence, in the
  order of these positions: a repeated identifier stands where its first token stood,
  and dropping the later tokens moves no other identifier.
\<close>

theorem get_html_element_order_first_occurrences:
  assumes "identifiers_in_order soup_contents = Inr emitted"
  shows "\<exists>ids. get_html_element_order soup_contents = Inr ids \<and>
           distinct ids \<and> set ids = set emitted \<and>
           ids = map (\<lambda>i. emitted ! i)
                   (filter (\<lambda>i. emitted ! i \<notin> set (take i emitted)) [0..<length emitted])"
proof -
  have "get_html_element_order soup_contents = Inr (first_occurrences emitted)"
    by (simp add: get_html_element_order_def assms keys_fromkeys)
  moreover have "distinct (first_occurrences emitted)" by (rule distinct_first_occurrences)
  moreover have "set (first_occurrences emitted) = set emitted" by (rule set_first_occurrences)
  ultimately show ?thesis by (simp add: first_occurrences_def)
qed

theorem get_html_element_order_first_occurrences_witness:
  "identifiers_in_order
     [Tag ''div'' (Attrs None (Some [''c'']) [])
        [Tag ''p'' (Attrs None (Some [''c'']) []) [],
         Tag ''div'' (Attrs None None []) [],
         Tag ''p'' (Attrs (Some ''i'') None []) []]]
     = Inr [''div'', ''.c'', ''p'', ''.c'', ''#i'', ''div''] \<and>
   get_html_element_order
     [Tag ''div'' (Attrs None (Some [''c'']) [])
        [Tag ''p'' (Attrs None (Some [''c'']) []) [],
         Tag ''div'' (Attrs None None []) [],
         Tag ''p'' (Attrs (Some ''i'') None []) []]]
     = Inr [''div'', ''.c'', ''p'', ''#i'']"
proof -
  have e: "identifiers_in_order
     [Tag ''div'' (Attrs None (Some [''c'']) [])
        [Tag ''p'' (Attrs None (Some [''c'']) []) [],
         Tag ''div'' (Attrs None None []) [],
         Tag ''p'' (Attrs (Some ''i'') None []) []]]
     = Inr [''div'', ''.c'', ''p'', ''.c'', ''#i'', ''div'']"
    by code_simp
  have f: "map (\<lambda>i. [''div'', ''.c'', ''p'', ''.c'', ''#i'', ''div''] ! i)
             (filter (\<lambda>i. [''div'', ''.c'', ''p'', ''.c'', ''#i'', ''div''] ! i
                            \<notin> set (take i [''div'', ''.c'', ''p'', ''.c'', ''#i'', ''div'']))
                [0..<length [''div'', ''.c'', ''p'', ''.c'', ''#i'', ''div'']])
           = [''div'', ''.c'', ''p'', ''#i'']"
    by code_simp
  from get_html_element_order_first_occurrences[OF e] e show ?thesis
    unfolding f by auto
qed

section \<open>The dictionary of an HTML tree\<close>

lemma recurse_build_tags:
  "list_all no_attributes_name groups \<Longrightarrow>
     recurse groups (HtmlDict ao ts) = Inr (HtmlDict ao (build_tags groups ts))"
proof (induction groups ts arbitrary: ao rule: build_tags.induct)
  case (1 ts)
  show ?case by simp
next
  case (2 s groups ts)
  then show ?case by simp
next
  case (3 name a contents groups ts)
  from "3.prems" have c: "list_all no_attributes_name contents"
    and g: "list_all no_attributes_name groups" and n: "name \<noteq> ''attributes''"
    by simp_all
  from "3.IH"(1)[OF c] "3.IH"(2)[OF g] n show ?case
    by (cases "attrs_nonempty a") (simp_all add: Let_def)
qed

lemma build_tags_snoc:
  "build_tags (groups @ [elem]) ts =
     (case elem of
        NavigableString _ \<Rightarrow> build_tags groups ts
      | Tag name a contents \<Rightarrow> append_child name (element_dict elem) (build_tags groups ts))"
  by (induction groups ts rule: build_tags.induct)
     (simp_all add: element_dict_def split: page_element.splits)

lemma tag_names_snoc:
  "tag_names (groups @ [elem]) =
     tag_names groups @ (case elem of NavigableString _ \<Rightarrow> [] | Tag name a contents \<Rightarrow> [name])"
  by (induction groups rule: tag_names.induct) (simp_all split: page_element.splits)

lemma is_named_tag_names: "elem \<in> set groups \<Longrightarrow> is_named name elem \<Longrightarrow> name \<in> set (tag_names groups)"
  by (induction groups rule: tag_names.induct) auto

lemma tag_names_is_named: "name \<in> set (tag_names groups) \<Longrightarrow> \<exists>elem \<in> set groups. is_named name elem"
  by (induction groups rule: tag_names.induct) auto

lemma dict_modify_keyed:
  "distinct ks \<Longrightarrow>
     dict_modify n f (map (\<lambda>k. (k, F k)) ks) = map (\<lambda>k. (k, if k = n then f (F k) else F k)) ks"
  by (induction ks) auto

lemma build_tags_grouped:
  "build_tags groups [] =
     map (\<lambda>name. (name, map element_dict (filter (is_named name) groups)))
       (first_occurrences (tag_names groups))"
proof (induction groups rule: rev_induct)
  case Nil
  show ?case by (simp add: first_occurrences_def)
next
  case (snoc elem groups)
  show ?case
  proof (cases elem)
    case (NavigableString s)
    with snoc show ?thesis by (simp add: build_tags_snoc tag_names_snoc)
  next
    case (Tag n a contents)
    let ?names = "first_occurrences (tag_names groups)"
    let ?F = "\<lambda>name. map element_dict (filter (is_named name) groups)"
    have d: "distinct ?names" by (rule distinct_first_occurrences)
    have keys: "set (dict_keys (map (\<lambda>name. (name, ?F name)) ?names)) = set (tag_names groups)"
      by (simp add: dict_keys_def comp_def set_first_occurrences)
    show ?thesis
    proof (cases "n \<in> set (tag_names groups)")
      case True
      have "build_tags (groups @ [elem]) [] =
          dict_modify n (\<lambda>l. l @ [element_dict elem]) (map (\<lambda>name. (name, ?F name)) ?names)"
        using True keys by (simp add: build_tags_snoc Tag snoc append_child_def)
      also have "\<dots> = map (\<lambda>name. (name, if name = n then ?F name @ [element_dict elem] else ?F name)) ?names"
        by (rule dict_modify_keyed[OF d])
      also have "\<dots> = map (\<lambda>name. (name, map element_dict (filter (is_named name) (groups @ [elem])))) ?names"
        by (rule map_cong) (auto simp: Tag)
      finally show ?thesis using True by (simp add: tag_names_snoc Tag first_occurrences_snoc)
    next
      case False
      then have new: "n \<notin> set (map fst (map (\<lambda>name. (name, ?F name)) ?names))"
        using keys by (simp add: dict_keys_def)
      have none: "filter (is_named n) groups = []"
        using False is_named_tag_names[of _ groups n] by (auto simp: filter_empty_conv)
      have dn: "distinct (?names @ [n])" using d False by (simp add: set_first_occurrences)
      have "build_tags (groups @ [elem]) [] =
          dict_modify n (\<lambda>l. l @ [element_dict elem])
            (map (\<lambda>name. (name, ?F name)) ?names @ [(n, [])])"
        using False keys by (simp add: build_tags_snoc Tag snoc append_child_def dict_set_new[OF new])
      also have "map (\<lambda>name. (name, ?F name)) ?names @ [(n, [])]
          = map (\<lambda>name. (name, ?F name)) (?names @ [n])"
        by (simp add: none)
      also have "dict_modify n (\<lambda>l. l @ [element_dict elem]) \<dots>
          = map (\<lambda>name. (name, if name = n then ?F name @ [element_dict elem] else ?F name)) (?names @ [n])"
        by (rule dict_modify_keyed[OF dn])
      also have "\<dots> = map (\<lambda>name. (name, map element_dict (filter (is_named name) (groups @ [elem])))) (?names @ [n])"
        by (rule map_cong) (auto simp: Tag)
      finally show ?thesis using False by (simp add: tag_names_snoc Tag first_occurrences_snoc)
    qed
  qed
qed
section \<open>The identifiers of an HTML tree\<close>

lemma concat_err_Inr: "concat_err (map (\<lambda>x. Inr (h x)) xs) = Inr (concat (map h xs))"
  by (induction xs) simp_all

lemma concat_map_if:
  "concat (map (\<lambda>x. if P x then h x else []) xs) = concat (map h (filter P xs))"
  by (induction xs) simp_all

lemma no_reserved_tag_names:
  "list_all no_reserved_name groups \<Longrightarrow>
     ''body'' \<notin> set (tag_names groups) \<and> ''attributes'' \<notin> set (tag_names groups)"
  by (induction groups rule: tag_names.induct) auto

lemma attr_identifiers_empty: "\<not> attrs_nonempty a \<Longrightarrow> attr_identifiers a = []"
  by (simp add: attrs_nonempty_def attr_identifiers_def)

lemma emitted_identifiers_grouped:
  "emitted_identifiers groups =
     concat (map (\<lambda>name. name # concat (map element_identifiers (filter (is_named name) groups)))
       (first_occurrences (tag_names groups)))"
proof -
  have "concat (map (\<lambda>elem. case elem of NavigableString _ \<Rightarrow> []
            | Tag n a contents \<Rightarrow> if n = name then attr_identifiers a @ emitted_identifiers contents else [])
          groups)
      = concat (map element_identifiers (filter (is_named name) groups))" for name
  proof -
    have "(\<lambda>elem. case elem of NavigableString _ \<Rightarrow> []
            | Tag n a contents \<Rightarrow> if n = name then attr_identifiers a @ emitted_identifiers contents else [])
        = (\<lambda>elem. if is_named name elem then element_identifiers elem else [])"
      by (rule ext) (simp add: element_identifiers_def split: page_element.splits)
    then show ?thesis by (simp only: concat_map_if)
  qed
  then show ?thesis by (subst emitted_identifiers.simps) simp
qed

lemma get_identifiers_build_tags:
  "list_all no_reserved_name groups \<Longrightarrow>
     get_identifiers_dict (HtmlDict ao (build_tags groups [])) =
       Inr ((case ao of None \<Rightarrow> [] | Some a \<Rightarrow> attr_identifiers a) @ emitted_identifiers groups)"
proof (induction groups arbitrary: ao rule: emitted_identifiers.induct)
  case (1 groups)
  let ?names = "first_occurrences (tag_names groups)"
  let ?F = "\<lambda>name. map element_dict (filter (is_named name) groups)"
  have elem: "get_identifiers_dict (element_dict elem) = Inr (element_identifiers elem)"
    if "elem \<in> set groups" and "is_named name elem" for elem name
  proof (cases elem)
    case (NavigableString s)
    with that show ?thesis by simp
  next
    case (Tag n a contents)
    from that(2) Tag have n: "n = name" by simp
    from that(1) Tag have "name \<in> set (tag_names groups)"
      using is_named_tag_names[OF that(1) that(2)] by simp
    then have mem: "name \<in> set ?names" by (simp add: set_first_occurrences)
    from that(1) "1.prems" Tag have c: "list_all no_reserved_name contents"
      by (auto simp: list_all_iff)
    from "1.IH"[OF mem that(1) Tag n c]
    show ?thesis
      by (cases "attrs_nonempty a")
         (simp_all add: element_dict_def element_identifiers_def Tag attr_identifiers_empty)
  qed
  have lst: "get_identifiers_list (?F name) =
      Inr (concat (map element_identifiers (filter (is_named name) groups)))"
    if "name \<in> set ?names" for name
  proof -
    from that have "name \<in> set (tag_names groups)" by (simp add: set_first_occurrences)
    then obtain e where e: "e \<in> set groups" "is_named name e"
      using tag_names_is_named by blast
    then have "filter (is_named name) groups \<noteq> []" by (auto simp: filter_empty_conv)
    then obtain first rest where fr: "filter (is_named name) groups = first # rest"
      by (cases "filter (is_named name) groups") auto
    then have "first \<in> set (filter (is_named name) groups)" by simp
    then have f: "first \<in> set groups" "is_named name first" by simp_all
    obtain n a contents where first: "first = Tag n a contents"
      using f(2) by (cases first) simp_all
    from f(1) "1.prems" first have "list_all no_reserved_name contents"
      by (auto simp: list_all_iff)
    then have "''body'' \<notin> set (tag_names contents)" by (simp add: no_reserved_tag_names)
    then have nobody: "map_of (tags (element_dict first)) ''body'' = None"
      by (simp add: element_dict_def first build_tags_grouped map_of_eq_None_iff
            set_first_occurrences image_image)
    have each: "map get_identifiers_dict (?F name)
        = map (\<lambda>elem. Inr (element_identifiers elem)) (filter (is_named name) groups)"
      by (simp add: comp_def elem[of _ name])
    have "get_identifiers_list (?F name) = concat_err (map get_identifiers_dict (?F name))"
      by (subst get_identifiers_list.simps) (simp add: fr nobody)
    then show ?thesis by (simp only: each concat_err_Inr)
  qed
  have "map (\<lambda>(key, value).
            case get_identifiers_list value of
              Inl e \<Rightarrow> Inl e
            | Inr ids \<Rightarrow> Inr ((if key \<noteq> ''attributes'' then [key] else []) @ ids))
          (build_tags groups [])
      = map (\<lambda>name. Inr (name # concat (map element_identifiers (filter (is_named name) groups))))
          ?names"
    unfolding build_tags_grouped map_map
  proof (rule map_cong[OF refl])
    fix name assume mem: "name \<in> set ?names"
    then have "name \<noteq> ''attributes''"
      using no_reserved_tag_names[OF "1.prems"] by (auto simp: set_first_occurrences)
    then show "((\<lambda>(key, value).
            case get_identifiers_list value of
              Inl e \<Rightarrow> Inl e
            | Inr ids \<Rightarrow> Inr ((if key \<noteq> ''attributes'' then [key] else []) @ ids)) \<circ>
          (\<lambda>name. (name, ?F name))) name
        = Inr (name # concat (map element_identifiers (filter (is_named name) groups)))"
      by (simp add: lst[OF mem])
  qed
  then show ?case
    by (simp add: concat_err_Inr emitted_identifiers_grouped del: emitted_identifiers.simps)
qed

lemma no_reserved_no_attributes:
  "no_reserved_name elem \<Longrightarrow> no_attributes_name elem"
  by (induction elem) (auto simp: list_all_iff)

lemma get_identifiers_element:
  assumes "list_all no_reserved_name (element_contents elem)"
  shows "get_identifiers_dict (element_dict elem) = Inr (element_identifiers elem)"
proof (cases elem)
  case (NavigableString s)
  then show ?thesis by (simp add: element_dict_def element_identifiers_def)
next
  case (Tag n a contents)
  with assms have "list_all no_reserved_name contents" by simp
  from get_identifiers_build_tags[OF this] show ?thesis
    by (cases "attrs_nonempty a")
       (simp_all add: element_dict_def element_identifiers_def Tag attr_identifiers_empty)
qed

lemma map_of_build_tags:
  "name \<in> set (tag_names groups) \<Longrightarrow>
     map_of (build_tags groups []) name = Some (map element_dict (filter (is_named name) groups))"
  by (simp add: build_tags_grouped map_of_map_restrict set_first_occurrences)

lemma map_of_build_tags_None:
  "name \<notin> set (tag_names groups) \<Longrightarrow> map_of (build_tags groups []) name = None"
  by (simp add: build_tags_grouped map_of_map_restrict set_first_occurrences)

lemma filter_is_named_tag_names:
  "filter (is_named name) groups \<noteq> [] \<Longrightarrow> name \<in> set (tag_names groups)"
  using is_named_tag_names by (fastforce simp: filter_empty_conv)

lemma identifiers_without_html:
  assumes "list_all no_reserved_name soup_contents"
    and "''html'' \<notin> set (tag_names soup_contents)"
  shows "identifiers_in_order soup_contents = Inr (emitted_identifiers soup_contents)"
proof -
  from assms(1) have "list_all no_attributes_name soup_contents"
    using no_reserved_no_attributes by (auto simp: list_all_iff)
  then have "recurse soup_contents (HtmlDict None [])
      = Inr (HtmlDict None (build_tags soup_contents []))"
    by (rule recurse_build_tags)
  then show ?thesis
    using get_identifiers_build_tags[OF assms(1), of None] map_of_build_tags_None[OF assms(2)]
    by (simp add: identifiers_in_order_def del: emitted_identifiers.simps)
qed

lemma identifiers_from_body:
  assumes page: "list_all no_attributes_name soup_contents"
    and html: "filter (is_named ''html'') soup_contents = Tag ''html'' a contents # others"
    and body: "filter (is_named ''body'') contents \<noteq> []"
    and sub: "list_all (\<lambda>b. list_all no_reserved_name (element_contents b))
                (filter (is_named ''body'') contents)"
  shows "identifiers_in_order soup_contents =
           Inr (''body'' # concat (map element_identifiers (filter (is_named ''body'') contents)))"
proof -
  let ?bodies = "filter (is_named ''body'') contents"
  have r: "recurse soup_contents (HtmlDict None [])
      = Inr (HtmlDict None (build_tags soup_contents []))"
    using page by (rule recurse_build_tags)
  have "filter (is_named ''html'') soup_contents \<noteq> []" using html by simp
  then have h: "map_of (build_tags soup_contents []) ''html''
      = Some (element_dict (Tag ''html'' a contents) # map element_dict others)"
    using map_of_build_tags[OF filter_is_named_tag_names] html by simp
  have b: "map_of (tags (element_dict (Tag ''html'' a contents))) ''body''
      = Some (map element_dict ?bodies)"
    using map_of_build_tags[OF filter_is_named_tag_names[OF body]]
    by (simp add: element_dict_def)
  have each: "map (get_identifiers_dict \<circ> element_dict) ?bodies
      = map (\<lambda>elem. Inr (element_identifiers elem)) ?bodies"
    using sub get_identifiers_element by (simp add: list_all_iff)
  have "get_identifiers_list (element_dict (Tag ''html'' a contents) # map element_dict others)
      = Inr (''body'' # concat (map element_identifiers ?bodies))"
    by (subst get_identifiers_list.simps) (simp add: b each concat_err_Inr)
  then show ?thesis by (simp add: identifiers_in_order_def r h)
qed
lemma identifiers_from_html:
  assumes "list_all no_reserved_name soup_contents"
    and "''html'' \<in> set (tag_names soup_contents)"
  shows "identifiers_in_order soup_contents =
           Inr (concat (map element_identifiers (filter (is_named ''html'') soup_contents)))"
proof -
  let ?htmls = "filter (is_named ''html'') soup_contents"
  from assms(1) have "list_all no_attributes_name soup_contents"
    using no_reserved_no_attributes by (auto simp: list_all_iff)
  then have r: "recurse soup_contents (HtmlDict None [])
      = Inr (HtmlDict None (build_tags soup_contents []))"
    by (rule recurse_build_tags)
  have h: "map_of (build_tags soup_contents []) ''html'' = Some (map element_dict ?htmls)"
    using assms(2) by (rule map_of_build_tags)
  from assms(2) obtain first rest where fr: "?htmls = first # rest"
    using tag_names_is_named[OF assms(2)]
    by (cases ?htmls) (auto simp: filter_empty_conv)
  have sub: "list_all no_reserved_name (element_contents e)" if "e \<in> set soup_contents" for e
  proof -
    from that assms(1) have "no_reserved_name e" by (simp add: list_all_iff)
    then show ?thesis by (cases e) simp_all
  qed
  from fr have "first \<in> set ?htmls" by simp
  then have "first \<in> set soup_contents" by simp
  from sub[OF this] have "''body'' \<notin> set (tag_names (element_contents first))"
    by (simp add: no_reserved_tag_names)
  then have nobody: "map_of (tags (element_dict first)) ''body'' = None"
    by (cases first) (simp_all add: element_dict_def map_of_build_tags_None)
  have each: "map (get_identifiers_dict \<circ> element_dict) ?htmls
      = map (\<lambda>elem. Inr (element_identifiers elem)) ?htmls"
    using sub get_identifiers_element by simp
  have "get_identifiers_list (map element_dict ?htmls)
      = concat_err (map get_identifiers_dict (map element_dict ?htmls))"
    by (subst get_identifiers_list.simps) (simp add: fr nobody)
  then have "get_identifiers_list (map element_dict ?htmls)
      = Inr (concat (map element_identifiers ?htmls))"
    by (simp add: each concat_err_Inr)
  then show ?thesis by (simp add: identifiers_in_order_def r h)
qed

section \<open>Siblings with different tag names\<close>

lemma plain_no_reserved: "plain_element elem \<Longrightarrow> no_reserved_name elem"
  by (induction elem) (auto simp: list_all_iff)

lemma filter_is_named_none:
  "name \<notin> set (tag_names groups) \<Longrightarrow> filter (is_named name) groups = []"
  using is_named_tag_names[of _ groups name] by (auto simp: filter_empty_conv)

lemma grouped_distinct_names:
  "distinct (tag_names groups) \<Longrightarrow>
     concat (map (\<lambda>name. name # concat (map element_identifiers (filter (is_named name) groups)))
       (tag_names groups))
     = concat (map (\<lambda>elem. case elem of NavigableString _ \<Rightarrow> []
                             | Tag n a contents \<Rightarrow> n # element_identifiers elem) groups)"
proof (induction groups rule: tag_names.induct)
  case 1
  show ?case by simp
next
  case (2 s groups)
  then show ?case by simp
next
  case (3 name a contents groups)
  from "3.prems" have new: "name \<notin> set (tag_names groups)" and d: "distinct (tag_names groups)"
    by simp_all
  have rest: "map (\<lambda>n. n # concat (map element_identifiers
                 (filter (is_named n) (Tag name a contents # groups)))) (tag_names groups)
      = map (\<lambda>n. n # concat (map element_identifiers (filter (is_named n) groups)))
          (tag_names groups)"
    using new by (intro map_cong refl) auto
  have first: "filter (is_named name) (Tag name a contents # groups) = [Tag name a contents]"
    by (simp add: filter_is_named_none[OF new])
  have "concat (map (\<lambda>n. n # concat (map element_identifiers
            (filter (is_named n) (Tag name a contents # groups))))
          (tag_names (Tag name a contents # groups)))
      = (name # element_identifiers (Tag name a contents)) @
        concat (map (\<lambda>n. n # concat (map element_identifiers (filter (is_named n) groups)))
          (tag_names groups))"
    by (simp only: tag_names.simps list.map concat.simps rest first append_Nil2)
  then show ?case
    using "3.IH"[OF d] by simp
qed

lemma emitted_identifiers_distinct_names:
  assumes "distinct (tag_names groups)"
  shows "emitted_identifiers groups =
           concat (map (\<lambda>elem. case elem of NavigableString _ \<Rightarrow> []
                                   | Tag n a contents \<Rightarrow> n # element_identifiers elem) groups)"
  using grouped_distinct_names[OF assms]
  by (simp only: emitted_identifiers_grouped first_occurrences_distinct[OF assms])

lemma plain_element_tag_first:
  "plain_element elem \<Longrightarrow>
     (case elem of NavigableString _ \<Rightarrow> [] | Tag n a contents \<Rightarrow> n # element_identifiers elem)
       = tag_first_identifiers elem"
proof (induction elem)
  case (NavigableString s)
  show ?case by simp
next
  case (Tag name a contents)
  from Tag.prems have d: "distinct (tag_names contents)"
    and p: "\<forall>c \<in> set contents. plain_element c"
    by (simp_all add: list_all_iff)
  have "map (\<lambda>elem. case elem of NavigableString _ \<Rightarrow> []
                   | Tag n a contents \<Rightarrow> n # element_identifiers elem) contents
      = map tag_first_identifiers contents"
    using Tag.IH p by (intro map_cong refl) auto
  with emitted_identifiers_distinct_names[OF d]
  have "emitted_identifiers contents = concat (map tag_first_identifiers contents)"
    by (simp only:)
  then show ?case
    by (simp add: element_identifiers_def del: emitted_identifiers.simps)
qed

lemma emitted_identifiers_tag_first:
  assumes "distinct (tag_names groups)" and "list_all plain_element groups"
  shows "emitted_identifiers groups = concat (map tag_first_identifiers groups)"
proof -
  have "map (\<lambda>elem. case elem of NavigableString _ \<Rightarrow> []
                   | Tag n a contents \<Rightarrow> n # element_identifiers elem) groups
      = map tag_first_identifiers groups"
    using assms(2) plain_element_tag_first by (intro map_cong refl) (auto simp: list_all_iff)
  then show ?thesis by (simp only: emitted_identifiers_distinct_names[OF assms(1)])
qed

text \<open>
  C2, as the program has it. Take a tree in which no two children of one element
  have the same tag name, no tag is named \<open>body\<close> or \<open>attributes\<close>, and the elements at
  the top level have different tag names, none of them \<open>html\<close>. The flattener yields
  the identifiers element by element in this order: the tag name of the element, then
  \<open>#id\<close> when the element has an id, then one \<open>.class\<close> per class name in the declared
  order, then the identifiers of its children in document order. For a page with no tag
  named \<open>attributes\<close> whose first top-level \<open>html\<close> element has exactly one child named
  \<open>body\<close>, where the tree below that \<open>body\<close> is such a tree, the flattener yields
  the identifiers of the \<open>body\<close> element in that order, and no others.
\<close>

theorem identifiers_tag_name_first:
  "(list_all plain_element soup_contents \<and> distinct (tag_names soup_contents) \<and>
    ''html'' \<notin> set (tag_names soup_contents) \<longrightarrow>
      identifiers_in_order soup_contents =
        Inr (concat (map tag_first_identifiers soup_contents))) \<and>
   (list_all no_attributes_name soup_contents \<and>
    filter (is_named ''html'') soup_contents = Tag ''html'' a contents # others \<and>
    filter (is_named ''body'') contents = [Tag ''body'' b children] \<and>
    list_all plain_element children \<and> distinct (tag_names children) \<longrightarrow>
      identifiers_in_order soup_contents =
        Inr (tag_first_identifiers (Tag ''body'' b children)))"
proof (intro conjI impI)
  assume h: "list_all plain_element soup_contents \<and> distinct (tag_names soup_contents) \<and>
    ''html'' \<notin> set (tag_names soup_contents)"
  then have "list_all no_reserved_name soup_contents"
    using plain_no_reserved by (auto simp: list_all_iff)
  with h have "identifiers_in_order soup_contents = Inr (emitted_identifiers soup_contents)"
    using identifiers_without_html by blast
  with h show "identifiers_in_order soup_contents =
      Inr (concat (map tag_first_identifiers soup_contents))"
    by (simp only: emitted_identifiers_tag_first)
next
  assume h: "list_all no_attributes_name soup_contents \<and>
    filter (is_named ''html'') soup_contents = Tag ''html'' a contents # others \<and>
    filter (is_named ''body'') contents = [Tag ''body'' b children] \<and>
    list_all plain_element children \<and> distinct (tag_names children)"
  then have sub: "list_all (\<lambda>e. list_all no_reserved_name (element_contents e))
      (filter (is_named ''body'') contents)"
    using plain_no_reserved by (auto simp: list_all_iff)
  from h have ne: "filter (is_named ''body'') contents \<noteq> []" by simp
  from h have page: "list_all no_attributes_name soup_contents"
    and html: "filter (is_named ''html'') soup_contents = Tag ''html'' a contents # others"
    by simp_all
  have "identifiers_in_order soup_contents =
      Inr (''body'' # concat (map element_identifiers (filter (is_named ''body'') contents)))"
    by (rule identifiers_from_body[OF page html ne sub])
  moreover have "emitted_identifiers children = concat (map tag_first_identifiers children)"
    using h by (simp only: emitted_identifiers_tag_first)
  ultimately show "identifiers_in_order soup_contents =
      Inr (tag_first_identifiers (Tag ''body'' b children))"
    using h by (simp add: element_identifiers_def del: emitted_identifiers.simps)
qed

theorem identifiers_tag_name_first_witness:
  "list_all plain_element
     [Tag ''div'' (Attrs (Some ''top'') (Some [''c1'', ''c2'']) [])
        [Tag ''p'' (Attrs (Some ''a'') None []) [Tag ''b'' (Attrs None None []) []],
         NavigableString ''text'',
         Tag ''span'' (Attrs None (Some [''z'']) []) []],
      Tag ''footer'' (Attrs None None []) []] \<and>
   identifiers_in_order
     [Tag ''div'' (Attrs (Some ''top'') (Some [''c1'', ''c2'']) [])
        [Tag ''p'' (Attrs (Some ''a'') None []) [Tag ''b'' (Attrs None None []) []],
         NavigableString ''text'',
         Tag ''span'' (Attrs None (Some [''z'']) []) []],
      Tag ''footer'' (Attrs None None []) []]
     = Inr [''div'', ''#top'', ''.c1'', ''.c2'', ''p'', ''#a'', ''b'', ''span'', ''.z'', ''footer''] \<and>
   list_all no_attributes_name
     [NavigableString ''html'',
      Tag ''html'' (Attrs None None [(''lang'', ''en'')])
        [Tag ''head'' (Attrs None None []) [Tag ''title'' (Attrs None None []) []],
         Tag ''body'' (Attrs None (Some [''page'']) [])
           [Tag ''p'' (Attrs (Some ''a'') None []) [], Tag ''ul'' (Attrs None None []) []]]] \<and>
   identifiers_in_order
     [NavigableString ''html'',
      Tag ''html'' (Attrs None None [(''lang'', ''en'')])
        [Tag ''head'' (Attrs None None []) [Tag ''title'' (Attrs None None []) []],
         Tag ''body'' (Attrs None (Some [''page'']) [])
           [Tag ''p'' (Attrs (Some ''a'') None []) [], Tag ''ul'' (Attrs None None []) []]]]
     = Inr [''body'', ''.page'', ''p'', ''#a'', ''ul'']"
proof -
  let ?forest = "[Tag ''div'' (Attrs (Some ''top'') (Some [''c1'', ''c2'']) [])
        [Tag ''p'' (Attrs (Some ''a'') None []) [Tag ''b'' (Attrs None None []) []],
         NavigableString ''text'',
         Tag ''span'' (Attrs None (Some [''z'']) []) []],
      Tag ''footer'' (Attrs None None []) []]"
  let ?children = "[Tag ''p'' (Attrs (Some ''a'') None []) [], Tag ''ul'' (Attrs None None []) []]"
  let ?kids = "[Tag ''head'' (Attrs None None []) [Tag ''title'' (Attrs None None []) []],
         Tag ''body'' (Attrs None (Some [''page'']) []) ?children]"
  let ?page = "[NavigableString ''html'', Tag ''html'' (Attrs None None [(''lang'', ''en'')]) ?kids]"
  have f1: "list_all plain_element ?forest" by simp
  have f2: "distinct (tag_names ?forest)" by simp
  have f3: "''html'' \<notin> set (tag_names ?forest)" by simp
  have f4: "concat (map tag_first_identifiers ?forest)
      = [''div'', ''#top'', ''.c1'', ''.c2'', ''p'', ''#a'', ''b'', ''span'', ''.z'', ''footer'']"
    by code_simp
  have p1: "list_all no_attributes_name ?page" by simp
  have p2: "filter (is_named ''html'') ?page
      = Tag ''html'' (Attrs None None [(''lang'', ''en'')]) ?kids # []" by simp
  have p3: "filter (is_named ''body'') ?kids
      = [Tag ''body'' (Attrs None (Some [''page'']) []) ?children]" by simp
  have p4: "list_all plain_element ?children" by simp
  have p5: "distinct (tag_names ?children)" by simp
  have p6: "tag_first_identifiers (Tag ''body'' (Attrs None (Some [''page'']) []) ?children)
      = [''body'', ''.page'', ''p'', ''#a'', ''ul'']"
    by code_simp
  from identifiers_tag_name_first[of ?forest]
  have a: "identifiers_in_order ?forest
      = Inr [''div'', ''#top'', ''.c1'', ''.c2'', ''p'', ''#a'', ''b'', ''span'', ''.z'', ''footer'']"
    using f1 f2 f3 unfolding f4 by blast
  from identifiers_tag_name_first[of ?page "Attrs None None [(''lang'', ''en'')]" ?kids "[]"
      "Attrs None (Some [''page'']) []" ?children]
  have b: "identifiers_in_order ?page = Inr [''body'', ''.page'', ''p'', ''#a'', ''ul'']"
    using p1 p2 p3 p4 p5 unfolding p6 by blast
  from a b f1 p1 show ?thesis by blast
qed

text \<open>
  C2 as stated fails for an element with an id: the program yields the tag name before
  \<open>#id\<close>, where the specification has the tag name after the id and the classes.
\<close>

theorem identifiers_order_counterexample:
  "identifiers_in_order [Tag ''p'' (Attrs (Some ''a'') (Some [''c'']) []) []]
     = Inr [''p'', ''#a'', ''.c''] \<and>
   concat (map claimed_identifiers [Tag ''p'' (Attrs (Some ''a'') (Some [''c'']) []) []])
     = [''#a'', ''.c'', ''p''] \<and>
   identifiers_in_order [Tag ''p'' (Attrs (Some ''a'') (Some [''c'']) []) []]
     \<noteq> Inr (concat (map claimed_identifiers [Tag ''p'' (Attrs (Some ''a'') (Some [''c'']) []) []]))"
proof -
  have a: "identifiers_in_order [Tag ''p'' (Attrs (Some ''a'') (Some [''c'']) []) []]
     = Inr [''p'', ''#a'', ''.c'']"
    by code_simp
  have b: "concat (map claimed_identifiers [Tag ''p'' (Attrs (Some ''a'') (Some [''c'']) []) []])
     = [''#a'', ''.c'', ''p'']"
    by code_simp
  show ?thesis unfolding a b by simp
qed

section \<open>Inputs on which the program raises\<close>

text \<open>
  C9. The sort by HTML order raises \<open>IndexError\<close> on a key without a leading token.
  Such a key comes out of parsing: the selector \<open>a[title=",,"]\<close> is split at the commas
  inside the quotes, and the piece between them is the empty key. The flattener raises
  \<open>TypeError\<close> on an element with attributes that has a child named \<open>attributes\<close>.
\<close>

theorem sort_css_by_html_raises:
  "dict_keys (parse_css
      [CSSStyleRule (''a[title='' @ [CHR 0x22] @ '',,'' @ [CHR 0x22] @ '']'') ''color: red''])
     = [''a[title='' @ [CHR 0x22], [], [CHR 0x22] @ '']''] \<and>
   sort_css_by_html
     (parse_css
        [CSSStyleRule (''a[title='' @ [CHR 0x22] @ '',,'' @ [CHR 0x22] @ '']'') ''color: red''])
     [''a'']
     = Inl IndexError \<and>
   sort_css_by_html [([], \<lparr>comment = [], props = [''color: red'']\<rparr>)] [''a'']
     = Inl IndexError \<and>
   get_html_element_order
     [Tag ''div'' (Attrs (Some ''x'') None []) [Tag ''attributes'' (Attrs None None []) []]]
     = Inl TypeError"
  by code_simp

section \<open>Merging the blocks of a selector\<close>

lemma dict_modify_twice: "dict_modify k f (dict_modify k g d) = dict_modify k (\<lambda>v. f (g v)) d"
  by (induction d) auto

lemma css_entry_updates:
  "(e::css_entry)\<lparr>comment := comment e @ c, props := props e @ p\<rparr>
     = \<lparr>comment = comment e @ c, props = props e @ p\<rparr>"
  by (cases e) simp

lemma format_selector_merge:
  "format_selector cmt sp formated selector = merge_occurrence formated (strip selector, cmt, sp)"
proof -
  have "(\<lambda>v::css_entry. (v\<lparr>comment := comment v @ cmt\<rparr>)\<lparr>props := props (v\<lparr>comment := comment v @ cmt\<rparr>) @ sp\<rparr>)
      = (\<lambda>e. \<lparr>comment = comment e @ cmt, props = props e @ sp\<rparr>)"
    by (rule ext) (simp add: css_entry_updates)
  then show ?thesis
    by (simp add: format_selector_def merge_occurrence_def Let_def dict_modify_twice)
qed

lemma foldl_format_selector:
  "foldl (format_selector cmt sp) formated selectors =
     foldl merge_occurrence formated (map (\<lambda>selector. (strip selector, cmt, sp)) selectors)"
  by (induction selectors arbitrary: formated) (simp_all add: format_selector_merge)

lemma foldl_format_item:
  "foldl format_item formated blocks = foldl merge_occurrence formated (selector_occurrences blocks)"
proof (induction blocks arbitrary: formated)
  case Nil
  show ?case by (simp add: selector_occurrences_def)
next
  case (Cons block blocks)
  obtain selectors vals where b: "block = (selectors, vals)" by (cases block)
  have "selector_occurrences (block # blocks) =
      map (\<lambda>selector. (strip selector, raw_comment vals, split_properties (raw_props vals)))
        (split_on (\<lambda>c. c = CHR '','') selectors) @ selector_occurrences blocks"
    by (simp add: selector_occurrences_def b)
  moreover have "format_item formated block =
      foldl merge_occurrence formated
        (map (\<lambda>selector. (strip selector, raw_comment vals, split_properties (raw_props vals)))
          (split_on (\<lambda>c. c = CHR '','') selectors))"
    by (simp add: format_item_def b foldl_format_selector)
  moreover have "foldl format_item formated (block # blocks)
      = foldl format_item (format_item formated block) blocks"
    by simp
  ultimately show ?case by (simp only: Cons.IH foldl_append)
qed

lemma merge_occurrences_grouped:
  "foldl merge_occurrence [] occs =
     map (\<lambda>k. (k, \<lparr>comment = merged_comment k occs, props = merged_props k occs\<rparr>))
       (first_occurrences (map fst occs))"
proof (induction occs rule: rev_induct)
  case Nil
  show ?case by (simp add: first_occurrences_def)
next
  case (snoc occ occs)
  obtain k c p where occ: "occ = (k, c, p)" by (cases occ)
  let ?keys = "first_occurrences (map fst occs)"
  let ?E = "\<lambda>os k. \<lparr>comment = merged_comment k os, props = merged_props k os\<rparr>"
  have d: "distinct ?keys" by (rule distinct_first_occurrences)
  have keys: "set (dict_keys (map (\<lambda>k. (k, ?E occs k)) ?keys)) = fst ` set occs"
    by (simp add: dict_keys_def comp_def set_first_occurrences)
  show ?case
  proof (cases "k \<in> fst ` set occs")
    case True
    have "foldl merge_occurrence [] (occs @ [occ]) =
        dict_modify k (\<lambda>e. \<lparr>comment = comment e @ c, props = props e @ p\<rparr>)
          (map (\<lambda>k. (k, ?E occs k)) ?keys)"
      using True keys by (simp add: snoc occ merge_occurrence_def)
    also have "\<dots> = map (\<lambda>k'. (k', if k' = k
          then \<lparr>comment = comment (?E occs k') @ c, props = props (?E occs k') @ p\<rparr>
          else ?E occs k')) ?keys"
      by (rule dict_modify_keyed[OF d])
    also have "\<dots> = map (\<lambda>k'. (k', ?E (occs @ [occ]) k')) ?keys"
      by (rule map_cong) (auto simp: occ merged_comment_def merged_props_def)
    finally show ?thesis using True by (simp add: occ first_occurrences_snoc)
  next
    case False
    then have new: "k \<notin> set (map fst (map (\<lambda>k. (k, ?E occs k)) ?keys))"
      using keys by (simp add: dict_keys_def)
    have none: "filter (\<lambda>occ. fst occ = k) occs = []"
      using False by (auto simp: filter_empty_conv)
    have "foldl merge_occurrence [] (occs @ [occ]) =
        map (\<lambda>k. (k, ?E occs k)) ?keys @ [(k, \<lparr>comment = c, props = p\<rparr>)]"
      using False keys by (simp add: snoc occ merge_occurrence_def dict_set_new[OF new])
    also have "\<dots> = map (\<lambda>k'. (k', ?E (occs @ [occ]) k')) (?keys @ [k])"
    proof -
      have "map (\<lambda>k. (k, ?E occs k)) ?keys = map (\<lambda>k'. (k', ?E (occs @ [occ]) k')) ?keys"
        using False
        by (intro map_cong refl)
           (auto simp: occ merged_comment_def merged_props_def set_first_occurrences)
      moreover have "?E (occs @ [occ]) k = \<lparr>comment = c, props = p\<rparr>"
        by (simp add: occ merged_comment_def merged_props_def none)
      ultimately show ?thesis by simp
    qed
    finally show ?thesis using False by (simp add: occ first_occurrences_snoc)
  qed
qed

lemma format_css_dict_merged:
  "format_css_dict blocks =
     map (\<lambda>k. (k, \<lparr>comment = merged_comment k (selector_occurrences blocks),
                   props = sort (merged_props k (selector_occurrences blocks))\<rparr>))
       (first_occurrences (map fst (selector_occurrences blocks)))"
proof -
  let ?occs = "selector_occurrences blocks"
  let ?keys = "first_occurrences (map fst ?occs)"
  have m: "format_merge blocks =
      map (\<lambda>k. (k, \<lparr>comment = merged_comment k ?occs, props = merged_props k ?occs\<rparr>)) ?keys"
    by (simp add: format_merge_def foldl_format_item merge_occurrences_grouped)
  have dist: "distinct (map fst
      (map (\<lambda>k. (k, \<lparr>comment = merged_comment k ?occs, props = sort (merged_props k ?occs)\<rparr>)) ?keys))"
    by (simp add: comp_def distinct_first_occurrences)
  show ?thesis
    unfolding format_css_dict_def m
    using dict_of_list_distinct[OF dist] by (simp add: comp_def)
qed

lemma css_to_dict_step_new:
  assumes "selectorText \<notin> set (map fst d)"
  shows "css_to_dict_step (d, cmt) (CSSStyleRule selectorText style) =
           (d @ [(selectorText, \<lparr>raw_comment = cmt, raw_props = style\<rparr>)], [])"
proof -
  have "dict_modify selectorText f (d @ [(selectorText, v)]) = d @ [(selectorText, f v)]" for f v
    using assms by (induction d) auto
  with assms show ?thesis
    by (simp add: dict_keys_def dict_set_new Let_def)
qed

lemma css_to_dict_loop_blocks:
  "distinct (map fst (d @ style_blocks pending rules)) \<Longrightarrow>
     fst (foldl css_to_dict_step (d, pending) rules) = d @ style_blocks pending rules"
proof (induction rules arbitrary: d pending)
  case Nil
  show ?case by simp
next
  case (Cons node rules)
  show ?case
  proof (cases node)
    case (CSSComment t)
    with Cons show ?thesis by simp
  next
    case (CSSStyleRule sel st)
    from Cons.prems have new: "sel \<notin> set (map fst d)" by (auto simp: CSSStyleRule)
    from Cons.prems have "distinct (map fst ((d @ [(sel, \<lparr>raw_comment = pending, raw_props = st\<rparr>)])
        @ style_blocks [] rules))"
      by (simp add: CSSStyleRule)
    from Cons.IH[OF this] show ?thesis
      by (simp add: CSSStyleRule css_to_dict_step_new[OF new] del: css_to_dict_step.simps)
  qed
qed

lemma css_to_dict_blocks:
  "distinct (map fst (style_blocks [] rules)) \<Longrightarrow> css_to_dict rules = style_blocks [] rules"
  using css_to_dict_loop_blocks[of "[]" "[]" rules]
  by (simp add: css_to_dict_def css_to_dict_loop_def)
text \<open>
  C1, as the program has it. When the style rules of a stylesheet have different
  selector texts, the model has one key per selector in the order of the first
  encounter, and a selector that occurs in several rule blocks through comma-separated
  groups is bound to the concatenation of the comments of its blocks in encounter order
  and to the sorted concatenation of their declaration lists.
\<close>

theorem parse_css_merged:
  assumes "distinct (map fst (style_blocks [] rules))"
  shows "parse_css rules =
           map (\<lambda>k. (k, \<lparr>comment = merged_comment k (selector_occurrences (style_blocks [] rules)),
                         props = sort (merged_props k (selector_occurrences (style_blocks [] rules)))\<rparr>))
             (first_occurrences (map fst (selector_occurrences (style_blocks [] rules))))"
  by (simp add: parse_css_def css_to_dict_blocks[OF assms] format_css_dict_merged)

theorem parse_css_merged_witness:
  "distinct (map fst (style_blocks []
      [CSSComment ''/* one */'', CSSStyleRule ''b, a'' ''z: 1;x: 3'',
       CSSComment ''/* two */'', CSSStyleRule ''a'' ''y: 2''])) \<and>
   parse_css
      [CSSComment ''/* one */'', CSSStyleRule ''b, a'' ''z: 1;x: 3'',
       CSSComment ''/* two */'', CSSStyleRule ''a'' ''y: 2'']
     = [(''b'', \<lparr>comment = ''/* one */'', props = [''x: 3'', ''z: 1'']\<rparr>),
        (''a'', \<lparr>comment = ''/* one *//* two */'', props = [''x: 3'', ''y: 2'', ''z: 1'']\<rparr>)]"
proof -
  let ?rules = "[CSSComment ''/* one */'', CSSStyleRule ''b, a'' ''z: 1;x: 3'',
       CSSComment ''/* two */'', CSSStyleRule ''a'' ''y: 2'']"
  have h: "distinct (map fst (style_blocks [] ?rules))" by simp
  have v: "map (\<lambda>k. (k, \<lparr>comment = merged_comment k (selector_occurrences (style_blocks [] ?rules)),
                         props = sort (merged_props k (selector_occurrences (style_blocks [] ?rules)))\<rparr>))
             (first_occurrences (map fst (selector_occurrences (style_blocks [] ?rules))))
     = [(''b'', \<lparr>comment = ''/* one */'', props = [''x: 3'', ''z: 1'']\<rparr>),
        (''a'', \<lparr>comment = ''/* one *//* two */'', props = [''x: 3'', ''y: 2'', ''z: 1'']\<rparr>)]"
    by code_simp
  from parse_css_merged[OF h] h show ?thesis unfolding v by blast
qed

text \<open>
  C1 as stated fails twice. The declarations merged through a comma-separated group are
  stored sorted, not in encounter order. And of two style rules with the same selector
  text \<open>css_to_dict\<close> keeps the second one only.
\<close>

theorem parse_css_counterexample:
  "map_of (parse_css [CSSStyleRule ''a, b'' ''z: 1'', CSSStyleRule ''a'' ''b: 2'']) ''a''
     = Some \<lparr>comment = [], props = [''b: 2'', ''z: 1'']\<rparr> \<and>
   merged_props ''a'' (selector_occurrences
       (style_blocks [] [CSSStyleRule ''a, b'' ''z: 1'', CSSStyleRule ''a'' ''b: 2'']))
     = [''z: 1'', ''b: 2''] \<and>
   map_of (parse_css [CSSStyleRule ''a, b'' ''z: 1'', CSSStyleRule ''a'' ''b: 2'']) ''a''
     \<noteq> Some \<lparr>comment = merged_comment ''a'' (selector_occurrences
                  (style_blocks [] [CSSStyleRule ''a, b'' ''z: 1'', CSSStyleRule ''a'' ''b: 2''])),
               props = merged_props ''a'' (selector_occurrences
                  (style_blocks [] [CSSStyleRule ''a, b'' ''z: 1'', CSSStyleRule ''a'' ''b: 2'']))\<rparr> \<and>
   map_of (parse_css [CSSStyleRule ''a'' ''color: red'', CSSStyleRule ''a'' ''margin: 0'']) ''a''
     = Some \<lparr>comment = [], props = [''margin: 0'']\<rparr> \<and>
   merged_props ''a'' (selector_occurrences
       (style_blocks [] [CSSStyleRule ''a'' ''color: red'', CSSStyleRule ''a'' ''margin: 0'']))
     = [''color: red'', ''margin: 0'']"
  by code_simp

end
